theory Spec2Isabelle
  imports Complex_Main "HOL-Library.Word"
begin

section \<open>Machine types\<close>

text \<open>
  \<^verbatim>\<open>main.cpp\<close> is the command-line front end of untwister. Its integers are
  \<^verbatim>\<open>uint32_t\<close> and \<^verbatim>\<open>unsigned int\<close> (32 bits), \<^verbatim>\<open>unsigned long\<close> as
  returned by \<^verbatim>\<open>strtoul\<close> (64 bits on the LP64 platforms the program is built for)
  and \<^verbatim>\<open>time_t\<close>. Narrowing conversions keep the low 32 bits.
\<close>

type_synonym u32 = "32 word"
type_synonym u64 = "64 word"

text \<open>
  A \<^verbatim>\<open>double\<close> is a finite number, an infinity or a NaN. Only its comparisons are
  used by \<^verbatim>\<open>main\<close>; every ordered comparison with a NaN is false.
\<close>

datatype double = Finite real | PlusInf | MinusInf | NaN

fun double_less :: "double \<Rightarrow> double \<Rightarrow> bool" where
  "double_less NaN y = False"
| "double_less x NaN = False"
| "double_less (Finite x) (Finite y) = (x < y)"
| "double_less (Finite x) PlusInf = True"
| "double_less (Finite x) MinusInf = False"
| "double_less PlusInf y = False"
| "double_less MinusInf (Finite y) = True"
| "double_less MinusInf PlusInf = True"
| "double_less MinusInf MinusInf = False"

fun double_le :: "double \<Rightarrow> double \<Rightarrow> bool" where
  "double_le NaN y = False"
| "double_le x NaN = False"
| "double_le (Finite x) (Finite y) = (x \<le> y)"
| "double_le (Finite x) PlusInf = True"
| "double_le (Finite x) MinusInf = False"
| "double_le PlusInf PlusInf = True"
| "double_le PlusInf y = False"
| "double_le MinusInf y = True"

definition UINT_MAX :: u32 where
  "UINT_MAX = 4294967295"

definition ULONG_MAX :: nat where
  "ULONG_MAX = 2 ^ 64 - 1"

definition EXIT_SUCCESS :: nat where
  "EXIT_SUCCESS = 0"

definition EXIT_FAILURE :: nat where
  "EXIT_FAILURE = 1"

definition ONE_YEAR :: u32 where
  "ONE_YEAR = 31536000"

section \<open>The C library's strtoul\<close>

text \<open>
  \<^verbatim>\<open>strtoul(nptr, NULL, base)\<close> as ISO C 7.22.1.4 defines it and glibc computes it:
  skip white space, read an optional sign, settle the base (for base 0 a \<^verbatim>\<open>0x\<close>
  prefix selects 16, a leading \<^verbatim>\<open>0\<close> selects 8, anything else 10), then accumulate
  digits until the first character that is not a digit of the base. No digit at all gives 0,
  a magnitude above \<^verbatim>\<open>ULONG_MAX\<close> gives \<^verbatim>\<open>ULONG_MAX\<close>, a minus sign negates in
  \<^verbatim>\<open>unsigned long\<close>. A NUL character is not a digit, so it ends the scan as the end
  of the C string does.
\<close>

definition isspace :: "char \<Rightarrow> bool" where
  "isspace c = (c = CHR '' '' \<or> (9 \<le> (of_char c :: nat) \<and> (of_char c :: nat) \<le> 13))"

definition isprint :: "int \<Rightarrow> bool" where
  "isprint n = (32 \<le> n \<and> n \<le> 126)"

definition digit_of :: "char \<Rightarrow> nat option" where
  "digit_of c =
     (let n = (of_char c :: nat) in
      if 48 \<le> n \<and> n \<le> 57 then Some (n - 48)
      else if 65 \<le> n \<and> n \<le> 90 then Some (n - 65 + 10)
      else if 97 \<le> n \<and> n \<le> 122 then Some (n - 97 + 10)
      else None)"

fun strtoul_sign :: "string \<Rightarrow> bool \<times> string" where
  "strtoul_sign [] = (False, [])"
| "strtoul_sign (c # s) =
     (if c = CHR ''-'' then (True, s)
      else if c = CHR ''+'' then (False, s)
      else (False, c # s))"

definition strtoul_prefix :: "nat \<Rightarrow> string \<Rightarrow> nat \<times> string" where
  "strtoul_prefix base s =
     (case s of
        [] \<Rightarrow> (if base = 0 then (10, s) else (base, s))
      | c0 # rest \<Rightarrow>
          if c0 = CHR ''0'' then
            (case rest of
               [] \<Rightarrow> (if base = 0 then (8, s) else (base, s))
             | c1 # rest' \<Rightarrow>
                 if (base = 0 \<or> base = 16) \<and> (c1 = CHR ''x'' \<or> c1 = CHR ''X'') then (16, rest')
                 else if base = 0 then (8, s)
                 else (base, s))
          else if base = 0 then (10, s)
          else (base, s))"

text \<open>
  The digit loop with glibc's overflow test: \<open>i\<close> is the value so far, \<open>overflow\<close> is
  sticky, \<open>moved\<close> says that at least one digit was consumed.
\<close>

fun strtoul_digits :: "nat \<Rightarrow> string \<Rightarrow> nat \<Rightarrow> bool \<Rightarrow> bool \<Rightarrow> nat \<times> bool \<times> bool" where
  "strtoul_digits base [] i overflow moved = (i, overflow, moved)"
| "strtoul_digits base (c # s) i overflow moved =
     (case digit_of c of
        None \<Rightarrow> (i, overflow, moved)
      | Some d \<Rightarrow>
          if base \<le> d then (i, overflow, moved)
          else if ULONG_MAX div base < i \<or> (i = ULONG_MAX div base \<and> ULONG_MAX mod base < d)
          then strtoul_digits base s i True True
          else strtoul_digits base s (i * base + d) overflow True)"

definition strtoul :: "string \<Rightarrow> nat \<Rightarrow> u64" where
  "strtoul nptr base =
     (let (negative, s) = strtoul_sign (dropWhile isspace nptr);
          (b, digits) = strtoul_prefix base s;
          (i, overflow, moved) = strtoul_digits b digits 0 False False
      in if \<not> moved then 0
         else if overflow then of_nat ULONG_MAX
         else if negative then - of_nat i
         else of_nat i)"

text \<open>Decimal output of an unsigned integer, as \<^verbatim>\<open>operator<<\<close> writes it.\<close>

fun show_nat :: "nat \<Rightarrow> string" where
  "show_nat n =
     (if n < 10 then [''0123456789'' ! n]
      else show_nat (n div 10) @ [''0123456789'' ! (n mod 10)])"

declare show_nat.simps [simp del]

text \<open>Decimal output of an \<^verbatim>\<open>int\<close>.\<close>

definition show_int :: "int \<Rightarrow> string" where
  "show_int i = (if i < 0 then ''-'' @ show_nat (nat (- i)) else show_nat (nat i))"

text \<open>
  \<^verbatim>\<open>std::getline\<close> in a \<^verbatim>\<open>while\<close> loop: the lines of a file's contents, split at
  newline characters; a last line without a newline still counts, an empty rest does not.
\<close>

fun getlines_from :: "string \<Rightarrow> string \<Rightarrow> string list" where
  "getlines_from line [] = (if line = [] then [] else [line])"
| "getlines_from line (c # cs) =
     (if c = CHR 0x0A then line # getlines_from [] cs
      else getlines_from (line @ [c]) cs)"

definition getlines :: "string \<Rightarrow> string list" where
  "getlines content = getlines_from [] content"

section \<open>The Untwister object\<close>

text \<open>
  Modelled from the spec: the class \<^verbatim>\<open>Untwister\<close> (\<^verbatim>\<open>Untwister.h\<close> and its
  implementation are not part of the sources at hand). Section 4.7 of the specification
  lists its configuration slots and their defaults: algorithm name, depth (1000), worker
  count, minimum confidence (100.0) and the observation sequence, initially empty; the
  setters install a value and \<^verbatim>\<open>addObservedOutput\<close> appends to the sequence.
\<close>

record untwister =
  PRNG :: string
  depth :: u32
  threads :: u32
  minConfidence :: double
  observedOutputs :: "u32 list"

text \<open>
  Modelled from the spec: the setters of \<^verbatim>\<open>Untwister\<close> and \<^verbatim>\<open>addObservedOutput\<close>
  (section 4.7: operations \<^verbatim>\<open>set-*\<close> and \<^verbatim>\<open>add-observation(u32)\<close>; section 3: the
  observation sequence is ordered). Each setter installs its argument in its slot; an
  added observation goes to the end of the sequence.
\<close>

definition setPRNG :: "string \<Rightarrow> untwister \<Rightarrow> untwister" where
  "setPRNG name u = u\<lparr>PRNG := name\<rparr>"

definition setDepth :: "u32 \<Rightarrow> untwister \<Rightarrow> untwister" where
  "setDepth d u = u\<lparr>depth := d\<rparr>"

definition setThreads :: "u32 \<Rightarrow> untwister \<Rightarrow> untwister" where
  "setThreads t u = u\<lparr>threads := t\<rparr>"

definition setMinConfidence :: "double \<Rightarrow> untwister \<Rightarrow> untwister" where
  "setMinConfidence c u = u\<lparr>minConfidence := c\<rparr>"

definition addObservedOutput :: "u32 \<Rightarrow> untwister \<Rightarrow> untwister" where
  "addObservedOutput v u = u\<lparr>observedOutputs := observedOutputs u @ [v]\<rparr>"

text \<open>
  Modelled from the spec: \<^verbatim>\<open>Untwister::bruteforce\<close> evaluates the seeds of the search
  job, lower bound inclusive and upper bound exclusive (section 3, invariant I3: the
  workers partition \<open>[lower, upper)\<close> disjointly and jointly cover it).
\<close>

definition seed_evaluated :: "u32 \<Rightarrow> u32 \<Rightarrow> u32 \<Rightarrow> bool" where
  "seed_evaluated lower upper s = (lower \<le> s \<and> s < upper)"

section \<open>The environment of a run\<close>

text \<open>
  What \<^verbatim>\<open>main\<close> reads from outside: the file system, the clock, the C library's
  \<^verbatim>\<open>atof\<close>, the operations of \<^verbatim>\<open>Untwister\<close> whose code is elsewhere, the colour
  macros of \<^verbatim>\<open>ConsoleColors.h\<close>, and the rendering of a \<^verbatim>\<open>double\<close>.
  \<open>time_NULL e k\<close> is the result of the \<open>k\<close>-th call of \<^verbatim>\<open>time(NULL)\<close>,
  \<open>ifstream e path\<close> the contents of the file, \<open>None\<close> when it cannot be opened, and
  \<open>isCompleted_after_bruteforce e\<close> what the main thread's load of the completed flag reads
  once the search has returned.
\<close>

record env =
  isSupportedPRNG :: "string \<Rightarrow> bool"
  getPRNGNames :: "string list"
  hardware_threads :: u32
  ifstream :: "string \<Rightarrow> string option"
  time_NULL :: "nat \<Rightarrow> int"
  atof :: "string \<Rightarrow> double"
  inferState :: "untwister \<Rightarrow> bool"
  bruteforce :: "untwister \<Rightarrow> u32 \<Rightarrow> u32 \<Rightarrow> (u32 \<times> double) list"
  generateSampleFromSeed :: "untwister \<Rightarrow> u32 \<Rightarrow> u32 list"
  generateSampleFromState :: "untwister \<Rightarrow> u32 list"
  isCompleted_after_bruteforce :: bool
  elapsed_seconds :: nat
  show_double :: "double \<Rightarrow> string"
  INFO :: string
  WARN :: string
  SUCCESS :: string
  BOLD :: string
  RESET :: string

text \<open>
  Modelled from the spec: the constructor \<^verbatim>\<open>Untwister()\<close>, with the defaults of
  section 4.7: the first registered algorithm, depth 1000, the platform's suggested
  parallelism, minimum confidence 100.0 and no observations.
\<close>

definition new_Untwister :: "env \<Rightarrow> untwister" where
  "new_Untwister e =
     \<lparr>PRNG = (case getPRNGNames e of [] \<Rightarrow> [] | name # _ \<Rightarrow> name),
      depth = 1000,
      threads = hardware_threads e,
      minConfidence = Finite 100,
      observedOutputs = []\<rparr>"

section \<open>What a run does\<close>

text \<open>
  The observable actions of the main thread, in order: a line on standard output or
  standard error (without its newline), the help text of \<^verbatim>\<open>Usage\<close> (recorded with its
  two variable parts, the algorithm names and the worker count), and the calls into
  \<^verbatim>\<open>Untwister\<close> and the thread library.
\<close>

datatype event =
    Stdout string
  | Stderr string
  | UsageText "string list" u32
  | Call_generateSampleFromSeed u32
  | Call_generateSampleFromState
  | Call_inferState
  | Call_bruteforce u32 u32
  | Start_DisplayProgress u32
  | Store_isCompleted
  | Join_progressThread

text \<open>
  One result of \<^verbatim>\<open>getopt(argc, argv, "d:i:g:t:r:c:uh")\<close> other than -1: the option
  character it returns, \<^verbatim>\<open>optarg\<close> and \<^verbatim>\<open>optopt\<close>, an \<^verbatim>\<open>int\<close> that is negative for
  an option byte above 127.
\<close>

datatype getopt_ret = GetOpt (opt_c: char) (optarg: string) (optopt: int)

text \<open>The local variables of \<^verbatim>\<open>main\<close>, the number of clock readings and the actions so far.\<close>

record locals =
  lowerBoundSeed :: u32
  upperBoundSeed :: u32
  seed :: u32
  generateFlag :: bool
  the_untwister :: untwister
  time_calls :: nat
  out :: "event list"

datatype flow = Return nat locals | Next locals

fun flow_locals :: "flow \<Rightarrow> locals" where
  "flow_locals (Return code st) = st"
| "flow_locals (Next st) = st"

definition emit :: "event \<Rightarrow> locals \<Rightarrow> locals" where
  "emit ev st = st\<lparr>out := out st @ [ev]\<rparr>"

definition Usage :: "env \<Rightarrow> locals \<Rightarrow> locals" where
  "Usage e st = emit (UsageText (getPRNGNames e) (threads (the_untwister st))) st"

definition quoted :: "string \<Rightarrow> string" where
  "quoted s = [CHR 0x22] @ s @ [CHR 0x22]"

fun getline_loop :: "string list \<Rightarrow> untwister \<Rightarrow> untwister" where
  "getline_loop [] u = u"
| "getline_loop (line # rest) u =
     getline_loop rest (addObservedOutput (ucast (strtoul line 0)) u)"

text \<open>The body of the \<^verbatim>\<open>switch\<close> in \<^verbatim>\<open>main\<close>, one option at a time.\<close>

definition switch_case :: "env \<Rightarrow> getopt_ret \<Rightarrow> locals \<Rightarrow> flow" where
  "switch_case e g st =
     (let c = opt_c g; arg = optarg g; u = the_untwister st in
      if c = CHR ''g'' then
        Next (st\<lparr>seed := ucast (strtoul arg 10), generateFlag := True\<rparr>)
      else if c = CHR ''u'' then
        Next (st\<lparr>lowerBoundSeed := word_of_int (time_NULL e (time_calls st) - uint ONE_YEAR),
                 upperBoundSeed := word_of_int (time_NULL e (time_calls st + 1) + uint ONE_YEAR),
                 time_calls := time_calls st + 2\<rparr>)
      else if c = CHR ''r'' then
        (if \<not> isSupportedPRNG e arg then
           Return EXIT_FAILURE
             (emit (Stderr (WARN e @ ''ERROR: The PRNG '' @ quoted arg @ '' is not supported, see -h'')) st)
         else Next (st\<lparr>the_untwister := setPRNG arg u\<rparr>))
      else if c = CHR ''d'' then
        (let d = (ucast (strtoul arg 10) :: u32) in
         if d = 0 then
           Return EXIT_FAILURE (emit (Stderr (WARN e @ ''ERROR: Please enter a valid depth > 1'')) st)
         else
           Next ((emit (Stdout (INFO e @ ''Depth set to: '' @ show_nat (unat d))) st)
                   \<lparr>the_untwister := setDepth d u\<rparr>))
      else if c = CHR ''i'' then
        (let st1 = (if ifstream e arg = None
                    then emit (Stderr (WARN e @ ''ERROR: File '' @ quoted arg @ '' not found'')) st
                    else st);
             lines = (case ifstream e arg of None \<Rightarrow> [] | Some content \<Rightarrow> getlines content)
         in Next (st1\<lparr>the_untwister := getline_loop lines u\<rparr>))
      else if c = CHR ''t'' then
        (let t = (ucast (strtoul arg 10) :: u32) in
         if t = 0 then
           Return EXIT_FAILURE
             (emit (Stderr (WARN e @ ''ERROR: Please enter a valid number of threads > 1'')) st)
         else Next (st\<lparr>the_untwister := setThreads t u\<rparr>))
      else if c = CHR ''c'' then
        (let minimumConfidence = atof e arg in
         if double_le minimumConfidence (Finite 0) \<or> double_less (Finite 100) minimumConfidence then
           Return EXIT_FAILURE (emit (Stderr (WARN e @ ''ERROR: Invalid confidence percentage '')) st)
         else
           Next ((emit (Stdout (INFO e @ ''Minimum confidence set to: '' @ show_double e minimumConfidence)) st)
                   \<lparr>the_untwister := setMinConfidence minimumConfidence u\<rparr>))
      else if c = CHR ''h'' then
        Return EXIT_SUCCESS (Usage e st)
      else if c = CHR ''?'' then
        (let st1 =
           (if optopt g = of_char (CHR ''d'') then
              emit (Stderr (''Option -'' @ show_int (optopt g) @ '' requires an argument.'')) st
            else if isprint (optopt g) then
              emit (Stderr (''Unknown option '' @ [CHR 0x60] @ ''-'' @ show_int (optopt g) @ [CHR 0x27] @ ''.'')) st
            else
              emit (Stderr (''Unknown option character '' @ [CHR 0x60] @ show_int (optopt g) @ [CHR 0x27] @ ''.'')) st)
         in Return EXIT_FAILURE (Usage e st1))
      else
        Return EXIT_FAILURE (Usage e st))"

text \<open>The \<^verbatim>\<open>while ((c = getopt(...)) != -1)\<close> loop over the results of \<^verbatim>\<open>getopt\<close>.\<close>

fun getopt_loop :: "env \<Rightarrow> getopt_ret list \<Rightarrow> locals \<Rightarrow> flow" where
  "getopt_loop e [] st = Next st"
| "getopt_loop e (g # gs) st =
     (case switch_case e g st of
        Return code st' \<Rightarrow> Return code st'
      | Next st' \<Rightarrow> getopt_loop e gs st')"

definition main_locals :: "env \<Rightarrow> locals" where
  "main_locals e =
     \<lparr>lowerBoundSeed = 0,
      upperBoundSeed = UINT_MAX,
      seed = 0,
      generateFlag = False,
      the_untwister = new_Untwister e,
      time_calls = 0,
      out = []\<rparr>"

definition found_line :: "env \<Rightarrow> u32 \<times> double \<Rightarrow> string" where
  "found_line e r =
     SUCCESS e @ ''Found seed '' @ show_nat (unat (fst r))
       @ '' with a confidence of '' @ show_double e (snd r) @ ''%''"

text \<open>
  The loop that prints the results in \<^verbatim>\<open>FindSeed\<close>, from \<open>index\<close> on. The index is
  an \<^verbatim>\<open>unsigned int\<close> compared with the vector's size; a vector of candidates has fewer
  than \<open>2 ^ 32\<close> elements, so the index does not wrap and is modelled as a natural number.
\<close>

function print_results :: "env \<Rightarrow> (u32 \<times> double) list \<Rightarrow> nat \<Rightarrow> event list" where
  "print_results e results index =
     (if index < length results
      then Stdout (found_line e (results ! index)) # print_results e results (index + 1)
      else [])"
  by pat_completeness auto
termination
  by (relation "measure (\<lambda>(e, results, index). length results - index)") auto

declare print_results.simps [simp del]

text \<open>
  \<^verbatim>\<open>FindSeed\<close>, as the main thread runs it: two information lines, the start of the
  reporter thread with the amount of work, the search, the store to the completed flag
  when the flag does not read set yet, the join and the elapsed time; then the results. The search is a function of the
  environment and the join is an action: the runs described are those in which
  \<^verbatim>\<open>bruteforce\<close> returns and the reporter thread ends.
\<close>

definition FindSeed_header :: "env \<Rightarrow> untwister \<Rightarrow> u32 \<Rightarrow> u32 \<Rightarrow> event list" where
  "FindSeed_header e u lower upper =
     [Stdout (INFO e @ ''Looking for seed using '' @ BOLD e @ PRNG u @ RESET e),
      Stdout (INFO e @ ''Spawning '' @ show_nat (unat (threads u)) @ '' worker thread(s) ...''),
      Start_DisplayProgress (upper - lower),
      Call_bruteforce lower upper]
     @ (if \<not> isCompleted_after_bruteforce e then [Store_isCompleted] else [])
     @ [Join_progressThread,
        Stdout (INFO e @ ''Completed in '' @ show_nat (elapsed_seconds e) @ '' second(s)'')]"

definition FindSeed :: "env \<Rightarrow> untwister \<Rightarrow> u32 \<Rightarrow> u32 \<Rightarrow> event list" where
  "FindSeed e u lower upper =
     FindSeed_header e u lower upper @ print_results e (bruteforce e u lower upper) 0"

text \<open>The loop that prints a generated sample, one value on each line, from \<open>index\<close> on.\<close>

function print_sample :: "u32 list \<Rightarrow> nat \<Rightarrow> event list" where
  "print_sample results index =
     (if index < length results
      then Stdout (show_nat (unat (results ! index))) # print_sample results (index + 1)
      else [])"
  by pat_completeness auto
termination
  by (relation "measure (\<lambda>(results, index). length results - index)") auto

declare print_sample.simps [simp del]

text \<open>\<^verbatim>\<open>main\<close>: its exit code and the actions of the run.\<close>

definition main :: "env \<Rightarrow> getopt_ret list \<Rightarrow> nat \<times> event list" where
  "main e opts =
     (case getopt_loop e opts (main_locals e) of
        Return code st \<Rightarrow> (code, out st)
      | Next st \<Rightarrow>
          (let u = the_untwister st in
           if generateFlag st then
             (if observedOutputs u = [] then
                (EXIT_SUCCESS,
                 out st @ Call_generateSampleFromSeed (seed st)
                   # print_sample (generateSampleFromSeed e u (seed st)) 0)
              else
                (EXIT_SUCCESS,
                 out st @ Call_generateSampleFromState # print_sample (generateSampleFromState e u) 0))
           else if observedOutputs u = [] then
             (EXIT_FAILURE,
              out (emit (Stderr (WARN e @ ''ERROR: No input numbers provided. Use -i <file> to provide a file''))
                     (Usage e st)))
           else if inferState e u then
             (EXIT_SUCCESS, out st @ [Call_inferState])
           else
             (EXIT_SUCCESS,
              out st @ Call_inferState # FindSeed e u (lowerBoundSeed st) (upperBoundSeed st))))"

section \<open>The progress reporter\<close>

text \<open>
  \<^verbatim>\<open>DisplayProgress\<close> is the body of the reporter thread that \<^verbatim>\<open>FindSeed\<close> starts. What
  the thread reads from the other threads and from the clock is given by sequences:
  \<open>isRunning_load pe k\<close> and \<open>isCompleted_load pe k\<close> are the values of the \<open>k\<close>-th load of
  each flag, \<open>status_at pe k\<close> is the status vector and \<open>time_span_at pe k\<close> the time since
  the start, in seconds, at the \<open>k\<close>-th poll. The arithmetic of \<^verbatim>\<open>double\<close> is left open.
\<close>

record reporter_env =
  isRunning_load :: "nat \<Rightarrow> bool"
  isCompleted_load :: "nat \<Rightarrow> bool"
  status_at :: "nat \<Rightarrow> u32 list"
  time_span_at :: "nat \<Rightarrow> double"
  to_double :: "u32 \<Rightarrow> double"
  divide_double :: "double \<Rightarrow> double \<Rightarrow> double"
  times_double :: "double \<Rightarrow> double \<Rightarrow> double"

text \<open>
  What the thread does: a sleep of some milliseconds, a progress line (the spinner
  character, the percentage, the sum of the status counters, the total work, the rate and
  the time left), and the final clearing of the line.
\<close>

datatype reporter_event =
    Sleep_ms nat
  | Progress_line char double u32 u32 double double
  | Clear_line

text \<open>The local variables of the second loop, and what the thread has done so far.\<close>

record reporter =
  percent :: double
  seedsPerSec :: double
  timeLeft :: double
  count :: u32
  shown :: "reporter_event list"

definition spinner :: string where
  "spinner = [CHR ''|'', CHR ''/'', CHR ''-'', CHR 0x5C]"

text \<open>One pass through the body of the second \<^verbatim>\<open>while\<close> loop: the \<open>k\<close>-th poll.\<close>

definition progress_poll :: "reporter_env \<Rightarrow> u32 \<Rightarrow> nat \<Rightarrow> reporter \<Rightarrow> reporter" where
  "progress_poll pe totalWork k r =
     (let time_span = time_span_at pe k;
          total = foldl (+) 0 (status_at pe k);
          percent' = times_double pe (divide_double pe (to_double pe total) (to_double pe totalWork)) (Finite 100);
          seedsPerSec' =
            (if double_less (Finite 0) time_span
             then divide_double pe (to_double pe total) time_span
             else seedsPerSec r);
          timeLeft' =
            (if double_less (Finite 0) time_span \<and> 0 = count r mod 20
             then divide_double pe (divide_double pe (to_double pe (totalWork - total)) seedsPerSec') (Finite 60)
             else timeLeft r)
      in r\<lparr>percent := percent',
            seedsPerSec := seedsPerSec',
            timeLeft := timeLeft',
            count := count r + 1,
            shown := shown r
              @ [Progress_line (spinner ! unat (count r mod 4)) percent' total totalWork seedsPerSec' timeLeft',
                 Sleep_ms 100]\<rparr>)"

text \<open>
  The second loop, from its \<open>k\<close>-th test of the completed flag on, and the first loop,
  which sleeps until the running flag is set. Either may run forever: the result is then
  \<open>None\<close>.
\<close>

partial_function (option) progress_loop :: "reporter_env \<Rightarrow> u32 \<Rightarrow> nat \<Rightarrow> reporter \<Rightarrow> reporter option" where
  "progress_loop pe totalWork k r =
     (if isCompleted_load pe k then Some r
      else progress_loop pe totalWork (k + 1) (progress_poll pe totalWork k r))"

partial_function (option) wait_isRunning :: "reporter_env \<Rightarrow> nat \<Rightarrow> nat option" where
  "wait_isRunning pe k =
     (if isRunning_load pe k then Some k else wait_isRunning pe (k + 1))"

definition reporter_init :: "nat \<Rightarrow> reporter" where
  "reporter_init sleeps =
     \<lparr>percent = Finite 0, seedsPerSec = Finite 0, timeLeft = Finite 0, count = 0,
      shown = replicate sleeps (Sleep_ms 100)\<rparr>"

definition DisplayProgress :: "reporter_env \<Rightarrow> u32 \<Rightarrow> reporter_event list option" where
  "DisplayProgress pe totalWork =
     (case wait_isRunning pe 0 of
        None \<Rightarrow> None
      | Some sleeps \<Rightarrow>
          (case progress_loop pe totalWork 0 (reporter_init sleeps) of
             None \<Rightarrow> None
           | Some r \<Rightarrow> Some (shown r @ [Clear_line])))"

text \<open>The reporter after \<open>n\<close> polls, the first of them being poll \<open>k\<close>.\<close>

primrec polls :: "reporter_env \<Rightarrow> u32 \<Rightarrow> nat \<Rightarrow> nat \<Rightarrow> reporter \<Rightarrow> reporter" where
  "polls pe totalWork k 0 r = r"
| "polls pe totalWork k (Suc n) r = polls pe totalWork (k + 1) n (progress_poll pe totalWork k r)"

section \<open>Notions of the specification\<close>

text \<open>
  The value of a numeral written in a base: the digits of a line, read the way the
  specification of the input format reads them.
\<close>

definition digit_value :: "char \<Rightarrow> nat" where
  "digit_value c = (case digit_of c of None \<Rightarrow> 0 | Some d \<Rightarrow> d)"

definition is_digit_in :: "nat \<Rightarrow> char \<Rightarrow> bool" where
  "is_digit_in base c = (case digit_of c of None \<Rightarrow> False | Some d \<Rightarrow> d < base)"

definition numeral_value :: "nat \<Rightarrow> string \<Rightarrow> nat" where
  "numeral_value base ds = foldl (\<lambda>a c. a * base + digit_value c) 0 ds"

text \<open>
  A line has no numeric prefix when, after its leading white space and an optional sign,
  it does not start with a decimal digit.
\<close>

definition no_numeric_prefix :: "string \<Rightarrow> bool" where
  "no_numeric_prefix line =
     (case snd (strtoul_sign (dropWhile isspace line)) of
        [] \<Rightarrow> True
      | c # _ \<Rightarrow> \<not> is_digit_in 10 c)"

text \<open>
  The rest of a line after a numeral of a base: empty, or starting with a character that
  is not a digit of the base.
\<close>

definition stops_at :: "nat \<Rightarrow> string \<Rightarrow> bool" where
  "stops_at base rest = (case rest of [] \<Rightarrow> True | c # _ \<Rightarrow> \<not> is_digit_in base c)"

text \<open>
  A line of the input format of the specification: leading white space, then a decimal
  numeral or a hexadecimal numeral with a \<^verbatim>\<open>0x\<close> prefix, and nothing else. A malformed
  line is one that is neither blank nor of that format.
\<close>

definition integer_line :: "string \<Rightarrow> bool" where
  "integer_line line =
     (let s = dropWhile isspace line in
      (s \<noteq> [] \<and> list_all (is_digit_in 10) s)
      \<or> (case s of
            c0 # c1 # hs \<Rightarrow>
              c0 = CHR ''0'' \<and> (c1 = CHR ''x'' \<or> c1 = CHR ''X'') \<and> hs \<noteq> [] \<and> list_all (is_digit_in 16) hs
          | _ \<Rightarrow> False))"

definition malformed :: "string \<Rightarrow> bool" where
  "malformed line = (\<not> list_all isspace line \<and> \<not> integer_line line)"

text \<open>An action that is output only, not a call.\<close>

fun is_output :: "event \<Rightarrow> bool" where
  "is_output (Stdout s) = True"
| "is_output (Stderr s) = True"
| "is_output (UsageText names n) = True"
| "is_output ev = False"

section \<open>A sample environment\<close>

text \<open>
  One readable file \<^verbatim>\<open>obs.txt\<close> with the five lines \<^verbatim>\<open>"  42"\<close>, \<^verbatim>\<open>"0x1F"\<close>,
  \<^verbatim>\<open>"010"\<close>, an empty line and \<^verbatim>\<open>"zz"\<close>; a clock that stands at 1793562000; an
  \<^verbatim>\<open>atof\<close> that knows three arguments; an inference that fails and a search that
  returns two candidates.
\<close>

definition sample_file :: string where
  "sample_file =
     ''  42'' @ [CHR 0x0A] @ ''0x1F'' @ [CHR 0x0A] @ ''010'' @ [CHR 0x0A] @ [CHR 0x0A] @ ''zz''"

definition sample_env :: env where
  "sample_env =
     \<lparr>isSupportedPRNG = (\<lambda>name. name = ''mt19937'' \<or> name = ''glibc-rand''),
      getPRNGNames = [''mt19937'', ''glibc-rand''],
      hardware_threads = 4,
      ifstream = (\<lambda>path. if path = ''obs.txt'' then Some sample_file else None),
      time_NULL = (\<lambda>k. 1793562000),
      atof = (\<lambda>s. if s = ''nan'' then NaN else if s = ''50'' then Finite 50 else Finite 0),
      inferState = (\<lambda>u. False),
      bruteforce = (\<lambda>u lower upper. [(31337, Finite 100), (5, Finite 50)]),
      generateSampleFromSeed = (\<lambda>u s. [s, s + 1]),
      generateSampleFromState = (\<lambda>u. [7]),
      isCompleted_after_bruteforce = True,
      elapsed_seconds = 3,
      show_double = (\<lambda>d. (case d of Finite x \<Rightarrow> (if x = 100 then ''100'' else ''50'') | _ \<Rightarrow> ''nan'')),
      INFO = ''[*] '',
      WARN = ''[!] '',
      SUCCESS = ''[$] '',
      BOLD = [],
      RESET = []\<rparr>"

text \<open>
  The same environment with a second readable file \<^verbatim>\<open>bad.txt\<close>, whose three lines
  \<^verbatim>\<open>12abc\<close>, \<^verbatim>\<open>3.14\<close> and \<^verbatim>\<open>zz\<close> are malformed.
\<close>

definition malformed_file :: string where
  "malformed_file = ''12abc'' @ [CHR 0x0A] @ ''3.14'' @ [CHR 0x0A] @ ''zz''"

definition malformed_env :: env where
  "malformed_env = sample_env\<lparr>ifstream := (\<lambda>path. if path = ''obs.txt'' then Some sample_file
                else if path = ''bad.txt'' then Some malformed_file else None)\<rparr>"

text \<open>The same environment with an inference that succeeds.\<close>

definition inferring_env :: env where
  "inferring_env = sample_env\<lparr>inferState := (\<lambda>u. True)\<rparr>"

text \<open>
  A reporter whose running flag reads set from the second load on and whose completed flag
  reads set from the third load on.
\<close>

definition sample_reporter :: reporter_env where
  "sample_reporter =
     \<lparr>isRunning_load = (\<lambda>k. 1 \<le> k),
      isCompleted_load = (\<lambda>k. 2 \<le> k),
      status_at = (\<lambda>k. [of_nat k, 1]),
      time_span_at = (\<lambda>k. Finite ((real k + 1) / 10)),
      to_double = (\<lambda>w. Finite (real (unat w))),
      divide_double = (\<lambda>a b. case a of
          Finite x \<Rightarrow> (case b of Finite y \<Rightarrow> (if y = 0 then NaN else Finite (x / y)) | _ \<Rightarrow> NaN)
        | _ \<Rightarrow> NaN),
      times_double = (\<lambda>a b. case a of
          Finite x \<Rightarrow> (case b of Finite y \<Rightarrow> Finite (x * y) | _ \<Rightarrow> NaN)
        | _ \<Rightarrow> NaN)\<rparr>"

section \<open>Facts about strtoul\<close>

lemma strtoul_sign_digit:
  "digit_of c = Some d \<Longrightarrow> strtoul_sign (c # s) = (False, c # s)"
  by (auto simp: digit_of_def Let_def split: if_splits)

lemma no_overflow_test:
  fixes i b d M :: nat
  assumes "i * b + d \<le> M" and "0 < b"
  shows "\<not> (M div b < i \<or> (i = M div b \<and> M mod b < d))"
proof -
  have M: "M = (M div b) * b + M mod b" by simp
  have "\<not> M div b < i"
  proof
    assume "M div b < i"
    then have "(M div b + 1) * b \<le> i * b" by (intro mult_le_mono1) simp
    moreover have "M < (M div b + 1) * b" using assms(2) M
      by (metis Suc_eq_plus1 dividend_less_div_times mult.commute mult_Suc)
    ultimately show False using assms(1) by linarith
  qed
  moreover have "\<not> (i = M div b \<and> M mod b < d)"
  proof
    assume A: "i = M div b \<and> M mod b < d"
    then have "M = i * b + M mod b" by simp
    with A have "M < i * b + d" by linarith
    then show False using assms(1) by simp
  qed
  ultimately show ?thesis by blast
qed

lemma foldl_horner_ge:
  "0 < b \<Longrightarrow> i \<le> foldl (\<lambda>a c. a * b + digit_value c) i ds"
proof (induction ds arbitrary: i)
  case Nil
  then show ?case by simp
next
  case (Cons c ds)
  have "i \<le> i * b + digit_value c" using Cons.prems
    by (metis One_nat_def Suc_leI le_add1 le_trans mult.right_neutral mult_le_mono2)
  also have "\<dots> \<le> foldl (\<lambda>a c. a * b + digit_value c) (i * b + digit_value c) ds"
    using Cons.IH [OF Cons.prems] .
  finally show ?case by simp
qed

lemma strtoul_digits_horner:
  assumes "0 < b" and "list_all (is_digit_in b) ds"
    and "foldl (\<lambda>a c. a * b + digit_value c) i ds \<le> ULONG_MAX"
  shows "strtoul_digits b ds i ov mv = (foldl (\<lambda>a c. a * b + digit_value c) i ds, ov, mv \<or> ds \<noteq> [])"
  using assms
proof (induction ds arbitrary: i mv)
  case Nil
  then show ?case by simp
next
  case (Cons c ds)
  from Cons.prems(2) obtain d where d: "digit_of c = Some d" "d < b"
    by (auto simp: is_digit_in_def split: option.splits)
  then have dv: "digit_value c = d" by (simp add: digit_value_def)
  have "i * b + d \<le> foldl (\<lambda>a c. a * b + digit_value c) (i * b + d) ds"
    by (rule foldl_horner_ge [OF Cons.prems(1)])
  with Cons.prems(3) dv have le: "i * b + d \<le> ULONG_MAX" by simp
  have nt: "\<not> (ULONG_MAX div b < i \<or> (i = ULONG_MAX div b \<and> ULONG_MAX mod b < d))"
    by (rule no_overflow_test [OF le Cons.prems(1)])
  have "strtoul_digits b (c # ds) i ov mv = strtoul_digits b ds (i * b + d) ov True"
    using d nt by auto
  also have "\<dots> = (foldl (\<lambda>a c. a * b + digit_value c) (i * b + d) ds, ov, True \<or> ds \<noteq> [])"
    using Cons.prems by (intro Cons.IH) (simp_all add: dv)
  finally show ?case by (simp add: dv)
qed


lemma ucast_of_nat_u64_u32: "(ucast (of_nat n :: u64) :: u32) = of_nat n"
  by (simp add: unsigned_of_nat word_of_nat_eq_iff)

lemma unat_of_nat_u32: "n < 2 ^ 32 \<Longrightarrow> unat (of_nat n :: u32) = n"
  by (simp add: unat_of_nat)

lemma dropWhile_isspace_prefix:
  "list_all isspace ws \<Longrightarrow> s = [] \<or> \<not> isspace (hd s) \<Longrightarrow> dropWhile isspace (ws @ s) = s"
  by (induction ws) (cases s; auto)+

lemma digit_not_space: "digit_of c = Some d \<Longrightarrow> \<not> isspace c"
  by (auto simp: digit_of_def isspace_def Let_def split: if_splits)


lemma dropWhile_isspace_all: "list_all isspace ws \<Longrightarrow> dropWhile isspace ws = []"
  by (induction ws) auto

lemma is_digit_in_digit_of: "is_digit_in b c \<Longrightarrow> \<exists>d. digit_of c = Some d \<and> d < b"
  by (auto simp: is_digit_in_def split: option.splits)

lemma strtoul_blank:
  assumes "list_all isspace ws"
  shows "strtoul ws base = 0"
  by (simp add: strtoul_def dropWhile_isspace_all [OF assms] strtoul_prefix_def)

lemma strtoul_decimal:
  assumes ws: "list_all isspace ws"
    and ds: "list_all (is_digit_in 10) (c # cs)"
    and nz: "c \<noteq> CHR ''0''"
    and bound: "numeral_value 10 (c # cs) \<le> ULONG_MAX"
  shows "strtoul (ws @ c # cs) 0 = of_nat (numeral_value 10 (c # cs))"
proof -
  from ds obtain d where d: "digit_of c = Some d" "d < 10"
    using is_digit_in_digit_of by fastforce
  have "dropWhile isspace (ws @ c # cs) = c # cs"
    using ws digit_not_space [OF d(1)] by (intro dropWhile_isspace_prefix) simp_all
  moreover have "strtoul_sign (c # cs) = (False, c # cs)"
    by (rule strtoul_sign_digit [OF d(1)])
  moreover have "strtoul_prefix 0 (c # cs) = (10, c # cs)"
    using nz by (simp add: strtoul_prefix_def)
  moreover have "strtoul_digits 10 (c # cs) 0 False False = (numeral_value 10 (c # cs), False, True)"
    using strtoul_digits_horner [of 10 "c # cs" 0 False False] ds bound
    by (simp add: numeral_value_def)
  ultimately show ?thesis by (simp add: strtoul_def)
qed

lemma strtoul_hex:
  assumes ws: "list_all isspace ws"
    and x: "x = CHR ''x'' \<or> x = CHR ''X''"
    and hs: "list_all (is_digit_in 16) hs" "hs \<noteq> []"
    and bound: "numeral_value 16 hs \<le> ULONG_MAX"
  shows "strtoul (ws @ CHR ''0'' # x # hs) 0 = of_nat (numeral_value 16 hs)"
proof -
  have "dropWhile isspace (ws @ CHR ''0'' # x # hs) = CHR ''0'' # x # hs"
    using ws by (intro dropWhile_isspace_prefix) (simp_all add: isspace_def)
  moreover have "strtoul_sign (CHR ''0'' # x # hs) = (False, CHR ''0'' # x # hs)"
    by simp
  moreover have "strtoul_prefix 0 (CHR ''0'' # x # hs) = (16, hs)"
    using x by (auto simp: strtoul_prefix_def)
  moreover have "strtoul_digits 16 hs 0 False False = (numeral_value 16 hs, False, True)"
    using strtoul_digits_horner [of 16 hs 0 False False] hs bound
    by (simp add: numeral_value_def)
  ultimately show ?thesis by (simp add: strtoul_def)
qed

lemma strtoul_octal:
  assumes ws: "list_all isspace ws"
    and os: "list_all (is_digit_in 8) os"
    and bound: "numeral_value 8 os \<le> ULONG_MAX"
  shows "strtoul (ws @ CHR ''0'' # os) 0 = of_nat (numeral_value 8 os)"
proof -
  have z: "digit_of (CHR ''0'') = Some 0" by (simp add: digit_of_def)
  have "dropWhile isspace (ws @ CHR ''0'' # os) = CHR ''0'' # os"
    using ws by (intro dropWhile_isspace_prefix) (simp_all add: isspace_def)
  moreover have "strtoul_sign (CHR ''0'' # os) = (False, CHR ''0'' # os)"
    by simp
  moreover have "strtoul_prefix 0 (CHR ''0'' # os) = (8, CHR ''0'' # os)"
  proof (cases os)
    case Nil
    then show ?thesis by (simp add: strtoul_prefix_def)
  next
    case (Cons c1 rest)
    with os obtain d where "digit_of c1 = Some d" "d < 8"
      using is_digit_in_digit_of by fastforce
    then have "c1 \<noteq> CHR ''x''" "c1 \<noteq> CHR ''X''"
      by (auto simp: digit_of_def)
    with Cons show ?thesis by (simp add: strtoul_prefix_def)
  qed
  moreover have v: "numeral_value 8 (CHR ''0'' # os) = numeral_value 8 os"
    by (simp add: numeral_value_def digit_value_def z)
  moreover have "strtoul_digits 8 (CHR ''0'' # os) 0 False False = (numeral_value 8 (CHR ''0'' # os), False, True)"
    using strtoul_digits_horner [of 8 "CHR ''0'' # os" 0 False False] os bound v
    by (simp add: numeral_value_def is_digit_in_def z)
  ultimately show ?thesis by (simp add: strtoul_def)
qed

lemma strtoul_no_numeric_prefix:
  assumes "no_numeric_prefix line"
  shows "strtoul line 0 = 0"
proof -
  obtain neg s where sg: "strtoul_sign (dropWhile isspace line) = (neg, s)"
    by (cases "strtoul_sign (dropWhile isspace line)")
  show ?thesis
  proof (cases s)
    case Nil
    with sg show ?thesis by (simp add: strtoul_def strtoul_prefix_def)
  next
    case (Cons c rest)
    with assms sg have nd: "\<not> is_digit_in 10 c" by (simp add: no_numeric_prefix_def)
    then have "c \<noteq> CHR ''0''" by (auto simp: is_digit_in_def digit_of_def)
    then have "strtoul_prefix 0 (c # rest) = (10, c # rest)" by (simp add: strtoul_prefix_def)
    moreover have "strtoul_digits 10 (c # rest) 0 False False = (0, False, False)"
      using nd by (auto simp: is_digit_in_def split: option.splits)
    ultimately show ?thesis using sg Cons by (simp add: strtoul_def)
  qed
qed

lemma getline_loop_eq:
  "getline_loop lines u =
     u\<lparr>observedOutputs := observedOutputs u @ map (\<lambda>line. ucast (strtoul line 0)) lines\<rparr>"
  by (induction lines arbitrary: u) (simp_all add: addObservedOutput_def)

lemma getline_loop_observedOutputs:
  "observedOutputs (getline_loop lines u) =
     observedOutputs u @ map (\<lambda>line. ucast (strtoul line 0)) lines"
  by (induction lines arbitrary: u) (simp_all add: addObservedOutput_def)

lemma switch_case_i_readable:
  assumes "ifstream e path = Some content"
  shows "switch_case e (GetOpt (CHR ''i'') path oo) st =
           Next (st\<lparr>the_untwister := getline_loop (getlines content) (the_untwister st)\<rparr>)"
  using assms by (simp add: switch_case_def)

section \<open>Facts about the loops of main\<close>

lemma print_results_drop:
  "print_results e results index = map (\<lambda>r. Stdout (found_line e r)) (drop index results)"
proof (induction e results index rule: print_results.induct)
  case (1 e results index)
  show ?case
  proof (cases "index < length results")
    case True
    then have "drop index results = results ! index # drop (index + 1) results"
      by (simp add: Cons_nth_drop_Suc)
    with True "1.IH" show ?thesis by (subst print_results.simps) simp
  next
    case False
    then show ?thesis by (subst print_results.simps) simp
  qed
qed

lemma print_sample_drop:
  "print_sample results index = map (\<lambda>v. Stdout (show_nat (unat v))) (drop index results)"
proof (induction results index rule: print_sample.induct)
  case (1 results index)
  show ?case
  proof (cases "index < length results")
    case True
    then have "drop index results = results ! index # drop (index + 1) results"
      by (simp add: Cons_nth_drop_Suc)
    with True "1.IH" show ?thesis by (subst print_sample.simps) simp
  next
    case False
    then show ?thesis by (subst print_sample.simps) simp
  qed
qed

lemma switch_case_out:
  "\<exists>evs. out (flow_locals (switch_case e g st)) = out st @ evs \<and> list_all is_output evs"
  by (simp add: switch_case_def Let_def emit_def Usage_def)

lemma getopt_loop_out:
  "\<exists>evs. out (flow_locals (getopt_loop e gs st)) = out st @ evs \<and> list_all is_output evs"
proof (induction gs arbitrary: st)
  case Nil
  then show ?case by simp
next
  case (Cons g gs)
  obtain evs where evs: "out (flow_locals (switch_case e g st)) = out st @ evs" "list_all is_output evs"
    using switch_case_out by blast
  show ?case
  proof (cases "switch_case e g st")
    case (Return code st')
    with evs show ?thesis by auto
  next
    case (Next st')
    obtain evs' where "out (flow_locals (getopt_loop e gs st')) = out st' @ evs'" "list_all is_output evs'"
      using Cons.IH by blast
    with Next evs show ?thesis by auto
  qed
qed

lemma getopt_loop_main_out:
  "list_all is_output (out (flow_locals (getopt_loop e gs (main_locals e))))"
  using getopt_loop_out [of e gs "main_locals e"] by (auto simp: main_locals_def)

lemma switch_case_bounds:
  "opt_c g \<noteq> CHR ''u'' \<Longrightarrow>
     lowerBoundSeed (flow_locals (switch_case e g st)) = lowerBoundSeed st
     \<and> upperBoundSeed (flow_locals (switch_case e g st)) = upperBoundSeed st"
  by (simp add: switch_case_def Let_def emit_def Usage_def)

lemma getopt_loop_bounds:
  "list_all (\<lambda>g. opt_c g \<noteq> CHR ''u'') gs \<Longrightarrow>
     lowerBoundSeed (flow_locals (getopt_loop e gs st)) = lowerBoundSeed st
     \<and> upperBoundSeed (flow_locals (getopt_loop e gs st)) = upperBoundSeed st"
proof (induction gs arbitrary: st)
  case Nil
  then show ?case by simp
next
  case (Cons g gs)
  then have g: "opt_c g \<noteq> CHR ''u''" and gs: "list_all (\<lambda>g. opt_c g \<noteq> CHR ''u'') gs" by simp_all
  show ?case
  proof (cases "switch_case e g st")
    case (Return code st')
    with switch_case_bounds [OF g, of e st] show ?thesis by simp
  next
    case (Next st')
    with switch_case_bounds [OF g, of e st] Cons.IH [OF gs, of st'] show ?thesis by simp
  qed
qed

lemma Call_bruteforce_not_output: "list_all is_output evs \<Longrightarrow> Call_bruteforce lo hi \<notin> set evs"
  by (induction evs) auto

lemma Call_bruteforce_print_results: "Call_bruteforce lo hi \<notin> set (print_results e results index)"
  by (auto simp: print_results_drop)

lemma Call_bruteforce_print_sample: "Call_bruteforce lo hi \<notin> set (print_sample results index)"
  by (auto simp: print_sample_drop)

lemma Call_bruteforce_FindSeed:
  "Call_bruteforce lo hi \<in> set (FindSeed e u lower upper) \<longleftrightarrow> lo = lower \<and> hi = upper"
  by (auto simp: FindSeed_def FindSeed_header_def Call_bruteforce_print_results)

lemma main_bruteforce_range:
  assumes "Call_bruteforce lo hi \<in> set (snd (main e opts))"
  shows "lo = lowerBoundSeed (flow_locals (getopt_loop e opts (main_locals e)))
       \<and> hi = upperBoundSeed (flow_locals (getopt_loop e opts (main_locals e)))"
proof -
  have outs: "Call_bruteforce lo hi \<notin> set (out (flow_locals (getopt_loop e opts (main_locals e))))"
    by (rule Call_bruteforce_not_output [OF getopt_loop_main_out])
  show ?thesis
  proof (cases "getopt_loop e opts (main_locals e)")
    case (Return code st)
    with assms outs show ?thesis by (simp add: main_def)
  next
    case (Next st)
    with assms outs show ?thesis
      by (auto simp: main_def Let_def emit_def Usage_def Call_bruteforce_print_sample
          Call_bruteforce_FindSeed split: if_splits)
  qed
qed

lemma uint_word_of_int_u32: "0 \<le> k \<Longrightarrow> k < 2 ^ 32 \<Longrightarrow> uint (word_of_int k :: u32) = k"
  by (simp add: uint_word_of_int)

lemma switch_case_u:
  "switch_case e (GetOpt (CHR ''u'') arg oo) st =
     Next (st\<lparr>lowerBoundSeed := word_of_int (time_NULL e (time_calls st) - 31536000),
              upperBoundSeed := word_of_int (time_NULL e (time_calls st + 1) + 31536000),
              time_calls := time_calls st + 2\<rparr>)"
  by (simp add: switch_case_def ONE_YEAR_def)

lemma getopt_loop_Next_out:
  assumes "getopt_loop e opts (main_locals e) = Next st"
  shows "list_all is_output (out st)"
  using getopt_loop_main_out [of e opts] assms by simp

lemma switch_case_generate:
  assumes "switch_case e g st = Next st'"
  shows "if opt_c g = CHR ''g''
         then generateFlag st' \<and> seed st' = ucast (strtoul (optarg g) 10)
         else generateFlag st' = generateFlag st \<and> seed st' = seed st"
  using assms by (auto simp: switch_case_def Let_def emit_def Usage_def split: if_splits)

lemma getopt_loop_generate:
  assumes "getopt_loop e gs st = Next st'" and "generateFlag st'"
  shows "(generateFlag st \<and> seed st' = seed st)
       \<or> (\<exists>g\<in>set gs. opt_c g = CHR ''g'' \<and> seed st' = ucast (strtoul (optarg g) 10))"
  using assms
proof (induction gs arbitrary: st)
  case Nil
  then show ?case by simp
next
  case (Cons g gs)
  from Cons.prems(1) obtain st1 where st1: "switch_case e g st = Next st1"
    and rest: "getopt_loop e gs st1 = Next st'"
    by (cases "switch_case e g st") simp_all
  from Cons.IH [OF rest Cons.prems(2)] consider
      (same) "generateFlag st1" "seed st' = seed st1"
    | (later) "\<exists>g\<in>set gs. opt_c g = CHR ''g'' \<and> seed st' = ucast (strtoul (optarg g) 10)"
    by blast
  then show ?case
  proof cases
    case same
    with switch_case_generate [OF st1] show ?thesis by (cases "opt_c g = CHR ''g''") auto
  next
    case later
    then show ?thesis by auto
  qed
qed

lemma getopt_loop_i_readable:
  assumes "ifstream e path = Some content"
  shows "getopt_loop e [GetOpt (CHR ''i'') path oo] st =
           Next (st\<lparr>the_untwister := getline_loop (getlines content) (the_untwister st)\<rparr>)"
  by (simp add: switch_case_i_readable [OF assms])

lemma getopt_loop_append:
  "getopt_loop e (gs @ hs) st =
     (case getopt_loop e gs st of Return code st' \<Rightarrow> Return code st' | Next st' \<Rightarrow> getopt_loop e hs st')"
  by (induction gs arbitrary: st) (auto split: flow.splits)

lemma main_Return:
  "getopt_loop e opts (main_locals e) = Return code st \<Longrightarrow> fst (main e opts) = code"
  by (simp add: main_def)

section \<open>Facts about the sample environment\<close>

lemma getlines_sample_file: "getlines sample_file = [''  42'', ''0x1F'', ''010'', [], ''zz'']"
  by (simp add: getlines_def sample_file_def)

lemma ifstream_sample: "ifstream sample_env ''obs.txt'' = Some sample_file"
  by (simp add: sample_env_def)

lemma sample_observations:
  "map (\<lambda>line. ucast (strtoul line 0)) [''  42'', ''0x1F'', ''010'', [], ''zz''] = [42, 31, 8, 0, 0 :: u32]"
  by (simp add: strtoul_def strtoul_prefix_def digit_of_def ULONG_MAX_def isspace_def)

lemma sample_getopt_loop:
  "getopt_loop sample_env [GetOpt (CHR ''i'') ''obs.txt'' 0] (main_locals sample_env)
     = Next ((main_locals sample_env)
         \<lparr>the_untwister := (new_Untwister sample_env)\<lparr>observedOutputs := [42, 31, 8, 0, 0]\<rparr>\<rparr>)"
proof -
  have "getline_loop (getlines sample_file) (new_Untwister sample_env)
      = (new_Untwister sample_env)\<lparr>observedOutputs := [42, 31, 8, 0, 0]\<rparr>"
    by (simp only: getline_loop_eq getlines_sample_file sample_observations)
      (simp add: new_Untwister_def)
  then show ?thesis
    by (simp add: switch_case_i_readable [OF ifstream_sample] main_locals_def)
qed

lemma sample_main:
  "main sample_env [GetOpt (CHR ''i'') ''obs.txt'' 0]
     = (0, Call_inferState
           # FindSeed sample_env ((new_Untwister sample_env)\<lparr>observedOutputs := [42, 31, 8, 0, 0]\<rparr>)
               0 4294967295)"
  by (simp only: main_def sample_getopt_loop)
    (simp add: main_locals_def UINT_MAX_def EXIT_SUCCESS_def sample_env_def Let_def)

lemma inferring_getopt_loop:
  "getopt_loop inferring_env [GetOpt (CHR ''i'') ''obs.txt'' 0] (main_locals inferring_env)
     = Next ((main_locals inferring_env)
         \<lparr>the_untwister := getline_loop (getlines sample_file) (new_Untwister inferring_env)\<rparr>)"
proof -
  have "ifstream inferring_env ''obs.txt'' = Some sample_file"
    by (simp add: inferring_env_def sample_env_def)
  from getopt_loop_i_readable [OF this, of 0 "main_locals inferring_env"]
  show ?thesis by (simp add: main_locals_def)
qed

lemma sample_getopt_loop_g:
  "getopt_loop sample_env [GetOpt (CHR ''g'') ''42'' 0] (main_locals sample_env)
     = Next ((main_locals sample_env)\<lparr>seed := 42, generateFlag := True\<rparr>)"
proof -
  have "(ucast (strtoul ''42'' 10) :: u32) = 42"
    by (simp add: strtoul_def strtoul_prefix_def digit_of_def ULONG_MAX_def isspace_def)
  then show ?thesis by (simp add: switch_case_def)
qed

lemma sample_getopt_loop_i_g:
  "getopt_loop sample_env [GetOpt (CHR ''i'') ''obs.txt'' 0, GetOpt (CHR ''g'') ''42'' 0]
       (main_locals sample_env)
     = Next ((main_locals sample_env)
         \<lparr>seed := 42, generateFlag := True,
          the_untwister := (new_Untwister sample_env)\<lparr>observedOutputs := [42, 31, 8, 0, 0]\<rparr>\<rparr>)"
proof -
  have v: "(ucast (strtoul ''42'' 10) :: u32) = 42"
    by (simp add: strtoul_def strtoul_prefix_def digit_of_def ULONG_MAX_def isspace_def)
  have "getopt_loop sample_env ([GetOpt (CHR ''i'') ''obs.txt'' 0] @ [GetOpt (CHR ''g'') ''42'' 0])
       (main_locals sample_env)
     = getopt_loop sample_env [GetOpt (CHR ''g'') ''42'' 0]
         ((main_locals sample_env)
           \<lparr>the_untwister := (new_Untwister sample_env)\<lparr>observedOutputs := [42, 31, 8, 0, 0]\<rparr>\<rparr>)"
    by (simp only: getopt_loop_append sample_getopt_loop flow.case)
  also have "\<dots> = Next ((main_locals sample_env)
         \<lparr>seed := 42, generateFlag := True,
          the_untwister := (new_Untwister sample_env)\<lparr>observedOutputs := [42, 31, 8, 0, 0]\<rparr>\<rparr>)"
    using v by (simp add: switch_case_def main_locals_def)
  finally show ?thesis by simp
qed

section \<open>Malformed lines of the input file\<close>

lemma strtoul_digits_stop:
  "stops_at b rest \<Longrightarrow> strtoul_digits b rest i ov mv = (i, ov, mv)"
  by (cases rest) (auto simp: stops_at_def is_digit_in_def split: option.splits)

lemma strtoul_digits_horner_rest:
  assumes "0 < b" and "list_all (is_digit_in b) ds"
    and "foldl (\<lambda>a c. a * b + digit_value c) i ds \<le> ULONG_MAX"
    and "stops_at b rest"
  shows "strtoul_digits b (ds @ rest) i ov mv
           = (foldl (\<lambda>a c. a * b + digit_value c) i ds, ov, mv \<or> ds \<noteq> [])"
  using assms(1,2,3)
proof (induction ds arbitrary: i mv)
  case Nil
  then show ?case by (simp add: strtoul_digits_stop [OF assms(4)])
next
  case (Cons c ds)
  from Cons.prems(2) obtain d where d: "digit_of c = Some d" "d < b"
    by (auto simp: is_digit_in_def split: option.splits)
  then have dv: "digit_value c = d" by (simp add: digit_value_def)
  have "i * b + d \<le> foldl (\<lambda>a c. a * b + digit_value c) (i * b + d) ds"
    by (rule foldl_horner_ge [OF Cons.prems(1)])
  with Cons.prems(3) dv have le: "i * b + d \<le> ULONG_MAX" by simp
  have nt: "\<not> (ULONG_MAX div b < i \<or> (i = ULONG_MAX div b \<and> ULONG_MAX mod b < d))"
    by (rule no_overflow_test [OF le Cons.prems(1)])
  have "strtoul_digits b ((c # ds) @ rest) i ov mv = strtoul_digits b (ds @ rest) (i * b + d) ov True"
    using d nt by auto
  also have "\<dots> = (foldl (\<lambda>a c. a * b + digit_value c) (i * b + d) ds, ov, True \<or> ds \<noteq> [])"
    using Cons.prems by (intro Cons.IH) (simp_all add: dv)
  finally show ?case by (simp add: dv)
qed

lemma strtoul_decimal_prefix:
  assumes ws: "list_all isspace ws"
    and ds: "list_all (is_digit_in 10) (c # cs)"
    and nz: "c \<noteq> CHR ''0''"
    and stop: "stops_at 10 rest"
    and bound: "numeral_value 10 (c # cs) \<le> ULONG_MAX"
  shows "strtoul (ws @ c # cs @ rest) 0 = of_nat (numeral_value 10 (c # cs))"
proof -
  from ds obtain d where d: "digit_of c = Some d" "d < 10"
    using is_digit_in_digit_of by fastforce
  have "dropWhile isspace (ws @ c # cs @ rest) = c # cs @ rest"
    using ws digit_not_space [OF d(1)] by (intro dropWhile_isspace_prefix) simp_all
  moreover have "strtoul_sign (c # cs @ rest) = (False, c # cs @ rest)"
    by (rule strtoul_sign_digit [OF d(1)])
  moreover have "strtoul_prefix 0 (c # cs @ rest) = (10, c # cs @ rest)"
    using nz by (simp add: strtoul_prefix_def)
  moreover have "strtoul_digits 10 ((c # cs) @ rest) 0 False False = (numeral_value 10 (c # cs), False, True)"
    using strtoul_digits_horner_rest [of 10 "c # cs" 0 rest False False] ds bound stop
    by (simp add: numeral_value_def)
  ultimately show ?thesis by (simp add: strtoul_def)
qed

lemma strtoul_hex_prefix:
  assumes ws: "list_all isspace ws"
    and x: "x = CHR ''x'' \<or> x = CHR ''X''"
    and hs: "list_all (is_digit_in 16) hs" "hs \<noteq> []"
    and stop: "stops_at 16 rest"
    and bound: "numeral_value 16 hs \<le> ULONG_MAX"
  shows "strtoul (ws @ CHR ''0'' # x # hs @ rest) 0 = of_nat (numeral_value 16 hs)"
proof -
  have "dropWhile isspace (ws @ CHR ''0'' # x # hs @ rest) = CHR ''0'' # x # hs @ rest"
    using ws by (intro dropWhile_isspace_prefix) (simp_all add: isspace_def)
  moreover have "strtoul_sign (CHR ''0'' # x # hs @ rest) = (False, CHR ''0'' # x # hs @ rest)"
    by simp
  moreover have "strtoul_prefix 0 (CHR ''0'' # x # hs @ rest) = (16, hs @ rest)"
    using x by (auto simp: strtoul_prefix_def)
  moreover have "strtoul_digits 16 (hs @ rest) 0 False False = (numeral_value 16 hs, False, True)"
    using strtoul_digits_horner_rest [of 16 hs 0 rest False False] hs bound stop
    by (simp add: numeral_value_def)
  ultimately show ?thesis by (simp add: strtoul_def)
qed

lemma strtoul_octal_prefix:
  assumes ws: "list_all isspace ws"
    and os: "list_all (is_digit_in 8) os" "os \<noteq> []"
    and stop: "stops_at 8 rest"
    and bound: "numeral_value 8 os \<le> ULONG_MAX"
  shows "strtoul (ws @ CHR ''0'' # os @ rest) 0 = of_nat (numeral_value 8 os)"
proof -
  have z: "digit_of (CHR ''0'') = Some 0" by (simp add: digit_of_def)
  have "dropWhile isspace (ws @ CHR ''0'' # os @ rest) = CHR ''0'' # os @ rest"
    using ws by (intro dropWhile_isspace_prefix) (simp_all add: isspace_def)
  moreover have "strtoul_sign (CHR ''0'' # os @ rest) = (False, CHR ''0'' # os @ rest)"
    by simp
  moreover have "strtoul_prefix 0 (CHR ''0'' # os @ rest) = (8, CHR ''0'' # os @ rest)"
  proof -
    from os(2) obtain c1 tl' where c1: "os = c1 # tl'" by (cases os) auto
    with os(1) obtain d where "digit_of c1 = Some d" "d < 8"
      using is_digit_in_digit_of by fastforce
    then have "c1 \<noteq> CHR ''x''" "c1 \<noteq> CHR ''X''"
      by (auto simp: digit_of_def)
    with c1 show ?thesis by (simp add: strtoul_prefix_def)
  qed
  moreover have v: "numeral_value 8 (CHR ''0'' # os) = numeral_value 8 os"
    by (simp add: numeral_value_def digit_value_def z)
  moreover have "strtoul_digits 8 ((CHR ''0'' # os) @ rest) 0 False False
      = (numeral_value 8 (CHR ''0'' # os), False, True)"
    using strtoul_digits_horner_rest [of 8 "CHR ''0'' # os" 0 rest False False] os bound v stop
    by (simp add: numeral_value_def is_digit_in_def z)
  ultimately show ?thesis by (simp add: strtoul_def)
qed

lemma prefix_decimal:
  assumes "list_all isspace ws" "list_all (is_digit_in 10) (c # cs)" "c \<noteq> CHR ''0''"
    and "stops_at 10 rest" and "numeral_value 10 (c # cs) < 2 ^ 32"
  shows "unat (ucast (strtoul (ws @ c # cs @ rest) 0) :: u32) = numeral_value 10 (c # cs)"
proof -
  have "numeral_value 10 (c # cs) \<le> ULONG_MAX" using assms(5) by (simp add: ULONG_MAX_def)
  then have "strtoul (ws @ c # cs @ rest) 0 = of_nat (numeral_value 10 (c # cs))"
    using assms by (intro strtoul_decimal_prefix)
  then show ?thesis using assms(5) by (simp add: ucast_of_nat_u64_u32 unat_of_nat_u32)
qed

lemma prefix_hex:
  assumes "list_all isspace ws" "x = CHR ''x'' \<or> x = CHR ''X''"
    and "list_all (is_digit_in 16) hs" "hs \<noteq> []" "stops_at 16 rest" "numeral_value 16 hs < 2 ^ 32"
  shows "unat (ucast (strtoul (ws @ CHR ''0'' # x # hs @ rest) 0) :: u32) = numeral_value 16 hs"
proof -
  have "numeral_value 16 hs \<le> ULONG_MAX" using assms(6) by (simp add: ULONG_MAX_def)
  then have "strtoul (ws @ CHR ''0'' # x # hs @ rest) 0 = of_nat (numeral_value 16 hs)"
    using assms by (intro strtoul_hex_prefix)
  then show ?thesis using assms(6) by (simp add: ucast_of_nat_u64_u32 unat_of_nat_u32)
qed

lemma prefix_octal:
  assumes "list_all isspace ws" "list_all (is_digit_in 8) os" "os \<noteq> []"
    and "stops_at 8 rest" and "numeral_value 8 os < 2 ^ 32"
  shows "unat (ucast (strtoul (ws @ CHR ''0'' # os @ rest) 0) :: u32) = numeral_value 8 os"
proof -
  have "numeral_value 8 os \<le> ULONG_MAX" using assms(5) by (simp add: ULONG_MAX_def)
  then have "strtoul (ws @ CHR ''0'' # os @ rest) 0 = of_nat (numeral_value 8 os)"
    using assms by (intro strtoul_octal_prefix)
  then show ?thesis using assms(5) by (simp add: ucast_of_nat_u64_u32 unat_of_nat_u32)
qed

lemma no_prefix_zero:
  "no_numeric_prefix line \<Longrightarrow> (ucast (strtoul line 0) :: u32) = 0"
  by (simp add: strtoul_no_numeric_prefix)

lemma getlines_malformed_file: "getlines malformed_file = [''12abc'', ''3.14'', ''zz'']"
  by (simp add: getlines_def malformed_file_def)

lemma ifstream_malformed: "ifstream malformed_env ''bad.txt'' = Some malformed_file"
  by (simp add: malformed_env_def)

text \<open>
  Claim C7 says that a malformed (unparseable) integer line in the input file is treated as
  the value 0. The line \<^verbatim>\<open>12abc\<close> is malformed, and the observation recorded for it is
  12: \<^verbatim>\<open>strtoul\<close> converts the longest numeric prefix of the line and ignores the rest.
\<close>

theorem malformed_numeric_prefix_kept:
  "malformed ''12abc''
   \<and> (ucast (strtoul ''12abc'' 0) :: u32) = 12
   \<and> (ucast (strtoul ''12abc'' 0) :: u32) \<noteq> 0
   \<and> observedOutputs (getline_loop [''12abc''] (new_Untwister sample_env)) = [12]"
proof -
  have m: "malformed ''12abc''"
    by (simp add: malformed_def integer_line_def isspace_def is_digit_in_def digit_of_def)
  have v: "(ucast (strtoul ''12abc'' 0) :: u32) = 12"
    by (simp add: strtoul_def strtoul_prefix_def digit_of_def ULONG_MAX_def isspace_def)
  have nz: "(ucast (strtoul ''12abc'' 0) :: u32) \<noteq> 0" by (simp add: v)
  have l: "observedOutputs (getline_loop [''12abc''] (new_Untwister sample_env)) = [12]"
    by (simp only: getline_loop_observedOutputs) (simp add: new_Untwister_def v)
  from m v nz l show ?thesis by (intro conjI)
qed

text \<open>
  Claim C7, as amended. A malformed line of the input file is never rejected: like every
  line of a readable file it adds exactly one observation, the result of \<^verbatim>\<open>strtoul\<close>
  with base 0 on the line, without an error message and without leaving \<^verbatim>\<open>main\<close>. The
  observation is 0 when the line has no numeric prefix (after leading white space and an
  optional sign it does not start with a decimal digit). When the line starts, after
  leading white space, with a numeral, the observation is the value of that numeral (when
  below \<open>2 ^ 32\<close>), whatever follows it: a numeral whose first digit is not 0 read as
  decimal, one with a \<^verbatim>\<open>0x\<close> or \<^verbatim>\<open>0X\<close> prefix as hexadecimal, one with a leading
  \<^verbatim>\<open>0\<close> as octal, each up to the first character that is not a digit of its base.
\<close>

theorem malformed_line_observation:
  assumes "ifstream e path = Some content" and "k < length (getlines content)"
  shows "(\<exists>st'. switch_case e (GetOpt (CHR ''i'') path oo) st = Next st'
            \<and> out st' = out st
            \<and> length (observedOutputs (the_untwister st'))
                = length (observedOutputs (the_untwister st)) + length (getlines content)
            \<and> observedOutputs (the_untwister st') ! (length (observedOutputs (the_untwister st)) + k)
                = ucast (strtoul (getlines content ! k) 0))
     \<and> (\<forall>line. no_numeric_prefix line \<longrightarrow> (ucast (strtoul line 0) :: u32) = 0)
     \<and> (\<forall>ws c cs rest. list_all isspace ws \<and> list_all (is_digit_in 10) (c # cs) \<and> c \<noteq> CHR ''0''
            \<and> stops_at 10 rest \<and> numeral_value 10 (c # cs) < 2 ^ 32
          \<longrightarrow> unat (ucast (strtoul (ws @ c # cs @ rest) 0) :: u32) = numeral_value 10 (c # cs))
     \<and> (\<forall>ws x hs rest. list_all isspace ws \<and> (x = CHR ''x'' \<or> x = CHR ''X'')
            \<and> list_all (is_digit_in 16) hs \<and> hs \<noteq> [] \<and> stops_at 16 rest \<and> numeral_value 16 hs < 2 ^ 32
          \<longrightarrow> unat (ucast (strtoul (ws @ CHR ''0'' # x # hs @ rest) 0) :: u32) = numeral_value 16 hs)
     \<and> (\<forall>ws os rest. list_all isspace ws \<and> list_all (is_digit_in 8) os \<and> os \<noteq> []
            \<and> stops_at 8 rest \<and> numeral_value 8 os < 2 ^ 32
          \<longrightarrow> unat (ucast (strtoul (ws @ CHR ''0'' # os @ rest) 0) :: u32) = numeral_value 8 os)"
proof -
  let ?st' = "st\<lparr>the_untwister := getline_loop (getlines content) (the_untwister st)\<rparr>"
  have "switch_case e (GetOpt (CHR ''i'') path oo) st = Next ?st'"
    by (rule switch_case_i_readable [OF assms(1)])
  moreover have "out ?st' = out st" by simp
  moreover have "length (observedOutputs (the_untwister ?st'))
      = length (observedOutputs (the_untwister st)) + length (getlines content)"
    by (simp add: getline_loop_observedOutputs)
  moreover have "observedOutputs (the_untwister ?st') ! (length (observedOutputs (the_untwister st)) + k)
      = ucast (strtoul (getlines content ! k) 0)"
    using assms(2) by (simp add: getline_loop_observedOutputs)
  ultimately have loaded: "\<exists>st'. switch_case e (GetOpt (CHR ''i'') path oo) st = Next st'
            \<and> out st' = out st
            \<and> length (observedOutputs (the_untwister st'))
                = length (observedOutputs (the_untwister st)) + length (getlines content)
            \<and> observedOutputs (the_untwister st') ! (length (observedOutputs (the_untwister st)) + k)
                = ucast (strtoul (getlines content ! k) 0)"
    by blast
  have none: "\<forall>line. no_numeric_prefix line \<longrightarrow> (ucast (strtoul line 0) :: u32) = 0"
    using no_prefix_zero by blast
  have dec: "\<forall>ws c cs rest. list_all isspace ws \<and> list_all (is_digit_in 10) (c # cs) \<and> c \<noteq> CHR ''0''
            \<and> stops_at 10 rest \<and> numeral_value 10 (c # cs) < 2 ^ 32
          \<longrightarrow> unat (ucast (strtoul (ws @ c # cs @ rest) 0) :: u32) = numeral_value 10 (c # cs)"
    using prefix_decimal by blast
  have hex: "\<forall>ws x hs rest. list_all isspace ws \<and> (x = CHR ''x'' \<or> x = CHR ''X'')
            \<and> list_all (is_digit_in 16) hs \<and> hs \<noteq> [] \<and> stops_at 16 rest \<and> numeral_value 16 hs < 2 ^ 32
          \<longrightarrow> unat (ucast (strtoul (ws @ CHR ''0'' # x # hs @ rest) 0) :: u32) = numeral_value 16 hs"
    using prefix_hex by blast
  have oct: "\<forall>ws os rest. list_all isspace ws \<and> list_all (is_digit_in 8) os \<and> os \<noteq> []
            \<and> stops_at 8 rest \<and> numeral_value 8 os < 2 ^ 32
          \<longrightarrow> unat (ucast (strtoul (ws @ CHR ''0'' # os @ rest) 0) :: u32) = numeral_value 8 os"
    using prefix_octal by blast
  show ?thesis by (intro conjI loaded none dec hex oct)
qed

theorem malformed_line_observation_witness:
  "ifstream malformed_env ''bad.txt'' = Some malformed_file
   \<and> getlines malformed_file = [''12abc'', ''3.14'', ''zz'']
   \<and> (\<exists>st'. switch_case malformed_env (GetOpt (CHR ''i'') ''bad.txt'' 0) (main_locals malformed_env) = Next st'
         \<and> out st' = out (main_locals malformed_env)
         \<and> length (observedOutputs (the_untwister st'))
             = length (observedOutputs (the_untwister (main_locals malformed_env))) + length (getlines malformed_file)
         \<and> observedOutputs (the_untwister st')
             ! (length (observedOutputs (the_untwister (main_locals malformed_env))) + 0)
             = ucast (strtoul (getlines malformed_file ! 0) 0))
   \<and> malformed ''12abc'' \<and> unat (ucast (strtoul ''12abc'' 0) :: u32) = 12
   \<and> malformed ''3.14'' \<and> unat (ucast (strtoul ''3.14'' 0) :: u32) = 3
   \<and> malformed ''0x1Fg'' \<and> unat (ucast (strtoul ''0x1Fg'' 0) :: u32) = 31
   \<and> malformed ''017z'' \<and> unat (ucast (strtoul ''017z'' 0) :: u32) = 15
   \<and> malformed ''zz'' \<and> no_numeric_prefix ''zz'' \<and> (ucast (strtoul ''zz'' 0) :: u32) = 0"
proof -
  have h2: "0 < length (getlines malformed_file)" by (simp add: getlines_malformed_file)
  note t = malformed_line_observation [OF ifstream_malformed h2, of 0 "main_locals malformed_env"]
  note loaded = conjunct1 [OF t]
  have m: "malformed ''12abc''" "malformed ''3.14''" "malformed ''0x1Fg''" "malformed ''017z''" "malformed ''zz''"
    by (simp_all add: malformed_def integer_line_def isspace_def is_digit_in_def digit_of_def)
  have np: "no_numeric_prefix ''zz''"
    by (simp add: no_numeric_prefix_def isspace_def is_digit_in_def digit_of_def)
  have zero: "(ucast (strtoul ''zz'' 0) :: u32) = 0"
    using conjunct1 [OF conjunct2 [OF t], rule_format, OF np] .
  have dec1: "unat (ucast (strtoul ([] @ CHR ''1'' # ''2'' @ ''abc'') 0) :: u32) = numeral_value 10 (CHR ''1'' # ''2'')"
    by (intro conjunct1 [OF conjunct2 [OF conjunct2 [OF t]], rule_format])
      (simp add: isspace_def is_digit_in_def digit_of_def numeral_value_def digit_value_def stops_at_def)
  have dec2: "unat (ucast (strtoul ([] @ CHR ''3'' # [] @ ''.14'') 0) :: u32) = numeral_value 10 (CHR ''3'' # [])"
    by (intro conjunct1 [OF conjunct2 [OF conjunct2 [OF t]], rule_format])
      (simp add: isspace_def is_digit_in_def digit_of_def numeral_value_def digit_value_def stops_at_def)
  have hex: "unat (ucast (strtoul ([] @ CHR ''0'' # CHR ''x'' # ''1F'' @ ''g'') 0) :: u32) = numeral_value 16 ''1F''"
    by (intro conjunct1 [OF conjunct2 [OF conjunct2 [OF conjunct2 [OF t]]], rule_format])
      (simp add: isspace_def is_digit_in_def digit_of_def numeral_value_def digit_value_def stops_at_def)
  have oct: "unat (ucast (strtoul ([] @ CHR ''0'' # ''17'' @ ''z'') 0) :: u32) = numeral_value 8 ''17''"
    by (intro conjunct2 [OF conjunct2 [OF conjunct2 [OF conjunct2 [OF t]]], rule_format])
      (simp add: isspace_def is_digit_in_def digit_of_def numeral_value_def digit_value_def stops_at_def)
  have nv: "numeral_value 10 ''12'' = 12" "numeral_value 10 ''3'' = 3"
    "numeral_value 16 ''1F'' = 31" "numeral_value 8 ''17'' = 15"
    by (simp_all add: numeral_value_def digit_value_def digit_of_def)
  have dec1': "unat (ucast (strtoul ''12abc'' 0) :: u32) = 12" using dec1 nv(1) by simp
  have dec2': "unat (ucast (strtoul ''3.14'' 0) :: u32) = 3" using dec2 nv(2) by simp
  have hex': "unat (ucast (strtoul ''0x1Fg'' 0) :: u32) = 31" using hex nv(3) by simp
  have oct': "unat (ucast (strtoul ''017z'' 0) :: u32) = 15" using oct nv(4) by simp
  from ifstream_malformed getlines_malformed_file loaded m np zero dec1' dec2' hex' oct'
  show ?thesis by blast
qed

section \<open>The format of the input file\<close>

lemma line_decimal:
  assumes "list_all isspace ws" "list_all (is_digit_in 10) (c # cs)" "c \<noteq> CHR ''0''"
    and "numeral_value 10 (c # cs) < 2 ^ 32"
  shows "unat (ucast (strtoul (ws @ c # cs) 0) :: u32) = numeral_value 10 (c # cs)"
proof -
  have "numeral_value 10 (c # cs) \<le> ULONG_MAX" using assms(4) by (simp add: ULONG_MAX_def)
  then have "strtoul (ws @ c # cs) 0 = of_nat (numeral_value 10 (c # cs))"
    using assms by (intro strtoul_decimal)
  then show ?thesis using assms(4) by (simp add: ucast_of_nat_u64_u32 unat_of_nat_u32)
qed

lemma line_hex:
  assumes "list_all isspace ws" "x = CHR ''x'' \<or> x = CHR ''X''"
    and "list_all (is_digit_in 16) hs" "hs \<noteq> []" "numeral_value 16 hs < 2 ^ 32"
  shows "unat (ucast (strtoul (ws @ CHR ''0'' # x # hs) 0) :: u32) = numeral_value 16 hs"
proof -
  have "numeral_value 16 hs \<le> ULONG_MAX" using assms(5) by (simp add: ULONG_MAX_def)
  then have "strtoul (ws @ CHR ''0'' # x # hs) 0 = of_nat (numeral_value 16 hs)"
    using assms by (intro strtoul_hex)
  then show ?thesis using assms(5) by (simp add: ucast_of_nat_u64_u32 unat_of_nat_u32)
qed

lemma line_octal:
  assumes "list_all isspace ws" "list_all (is_digit_in 8) os" "numeral_value 8 os < 2 ^ 32"
  shows "unat (ucast (strtoul (ws @ CHR ''0'' # os) 0) :: u32) = numeral_value 8 os"
proof -
  have "numeral_value 8 os \<le> ULONG_MAX" using assms(3) by (simp add: ULONG_MAX_def)
  then have "strtoul (ws @ CHR ''0'' # os) 0 = of_nat (numeral_value 8 os)"
    using assms by (intro strtoul_octal)
  then show ?thesis using assms(3) by (simp add: ucast_of_nat_u64_u32 unat_of_nat_u32)
qed

lemma line_blank:
  assumes "list_all isspace ws"
  shows "(ucast (strtoul ws 0) :: u32) = 0"
  by (simp add: strtoul_blank [OF assms])

text \<open>
  Claim C6 says that every line of the input file is parsed as one 32-bit unsigned
  integer, either decimal or hexadecimal with a \<^verbatim>\<open>0x\<close> prefix. The line
  \<^verbatim>\<open>010\<close> is a decimal numeral with the value ten, yet the observation recorded for it
  (the third line of the sample file) is eight: \<^verbatim>\<open>strtoul\<close> is called with base 0,
  which reads a leading zero as the octal prefix.
\<close>

theorem leading_zero_read_as_octal:
  "list_all (is_digit_in 10) ''010''
   \<and> numeral_value 10 ''010'' = 10
   \<and> getlines sample_file ! 2 = ''010''
   \<and> observedOutputs (getline_loop (getlines sample_file) (new_Untwister sample_env)) ! 2 = 8
   \<and> (ucast (strtoul ''010'' 0) :: u32) \<noteq> of_nat (numeral_value 10 ''010'')"
proof -
  have v: "(ucast (strtoul ''010'' 0) :: u32) = 8"
    by (simp add: strtoul_def strtoul_prefix_def digit_of_def ULONG_MAX_def isspace_def)
  have "list_all (is_digit_in 10) ''010''" by (simp add: is_digit_in_def digit_of_def)
  moreover have n: "numeral_value 10 ''010'' = 10" by (simp add: numeral_value_def digit_value_def digit_of_def)
  moreover have "getlines sample_file ! 2 = ''010''" by (simp add: getlines_sample_file)
  moreover have "observedOutputs (getline_loop (getlines sample_file) (new_Untwister sample_env)) ! 2 = 8"
    by (simp only: getline_loop_observedOutputs getlines_sample_file) (simp add: new_Untwister_def v)
  moreover have "(ucast (strtoul ''010'' 0) :: u32) \<noteq> of_nat (numeral_value 10 ''010'')"
    by (simp add: v n)
  ultimately show ?thesis by blast
qed

text \<open>
  Claim C6, as amended. Every line of the input file given to \<^verbatim>\<open>-i\<close> yields exactly
  one 32-bit observation, appended in order, and no line is rejected. A line is converted
  by \<^verbatim>\<open>strtoul\<close> with base 0: after optional leading white space, a numeral whose first
  digit is not zero is read as decimal, a numeral with a \<^verbatim>\<open>0x\<close> or \<^verbatim>\<open>0X\<close> prefix as
  hexadecimal, a numeral with a leading \<^verbatim>\<open>0\<close> as octal (each with its value when that is
  below \<open>2 ^ 32\<close>), and a blank line yields the observation 0.
\<close>

theorem input_lines_parsed_by_strtoul_base_0:
  assumes "ifstream e path = Some content"
  shows "(\<exists>st'. switch_case e (GetOpt (CHR ''i'') path oo) st = Next st'
            \<and> out st' = out st
            \<and> observedOutputs (the_untwister st')
                = observedOutputs (the_untwister st)
                  @ map (\<lambda>line. ucast (strtoul line 0)) (getlines content))
     \<and> (\<forall>ws c cs. list_all isspace ws \<and> list_all (is_digit_in 10) (c # cs) \<and> c \<noteq> CHR ''0''
            \<and> numeral_value 10 (c # cs) < 2 ^ 32
          \<longrightarrow> unat (ucast (strtoul (ws @ c # cs) 0) :: u32) = numeral_value 10 (c # cs))
     \<and> (\<forall>ws x hs. list_all isspace ws \<and> (x = CHR ''x'' \<or> x = CHR ''X'')
            \<and> list_all (is_digit_in 16) hs \<and> hs \<noteq> [] \<and> numeral_value 16 hs < 2 ^ 32
          \<longrightarrow> unat (ucast (strtoul (ws @ CHR ''0'' # x # hs) 0) :: u32) = numeral_value 16 hs)
     \<and> (\<forall>ws os. list_all isspace ws \<and> list_all (is_digit_in 8) os \<and> numeral_value 8 os < 2 ^ 32
          \<longrightarrow> unat (ucast (strtoul (ws @ CHR ''0'' # os) 0) :: u32) = numeral_value 8 os)
     \<and> (\<forall>ws. list_all isspace ws \<longrightarrow> (ucast (strtoul ws 0) :: u32) = 0)"
proof -
  let ?st' = "st\<lparr>the_untwister := getline_loop (getlines content) (the_untwister st)\<rparr>"
  have "switch_case e (GetOpt (CHR ''i'') path oo) st = Next ?st'"
    by (rule switch_case_i_readable [OF assms])
  moreover have "out ?st' = out st" by simp
  moreover have "observedOutputs (the_untwister ?st')
      = observedOutputs (the_untwister st) @ map (\<lambda>line. ucast (strtoul line 0)) (getlines content)"
    by (simp add: getline_loop_observedOutputs)
  ultimately have loaded: "\<exists>st'. switch_case e (GetOpt (CHR ''i'') path oo) st = Next st'
            \<and> out st' = out st
            \<and> observedOutputs (the_untwister st')
                = observedOutputs (the_untwister st)
                  @ map (\<lambda>line. ucast (strtoul line 0)) (getlines content)"
    by blast
  have dec: "\<forall>ws c cs. list_all isspace ws \<and> list_all (is_digit_in 10) (c # cs) \<and> c \<noteq> CHR ''0''
            \<and> numeral_value 10 (c # cs) < 2 ^ 32
          \<longrightarrow> unat (ucast (strtoul (ws @ c # cs) 0) :: u32) = numeral_value 10 (c # cs)"
    using line_decimal by blast
  have hex: "\<forall>ws x hs. list_all isspace ws \<and> (x = CHR ''x'' \<or> x = CHR ''X'')
            \<and> list_all (is_digit_in 16) hs \<and> hs \<noteq> [] \<and> numeral_value 16 hs < 2 ^ 32
          \<longrightarrow> unat (ucast (strtoul (ws @ CHR ''0'' # x # hs) 0) :: u32) = numeral_value 16 hs"
    using line_hex by blast
  have oct: "\<forall>ws os. list_all isspace ws \<and> list_all (is_digit_in 8) os \<and> numeral_value 8 os < 2 ^ 32
          \<longrightarrow> unat (ucast (strtoul (ws @ CHR ''0'' # os) 0) :: u32) = numeral_value 8 os"
    using line_octal by blast
  have blank: "\<forall>ws. list_all isspace ws \<longrightarrow> (ucast (strtoul ws 0) :: u32) = 0"
    using line_blank by blast
  show ?thesis
    by (intro conjI loaded dec hex oct blank)
qed

theorem input_lines_parsed_by_strtoul_base_0_witness:
  "ifstream sample_env ''obs.txt'' = Some sample_file
   \<and> (\<exists>st'. switch_case sample_env (GetOpt (CHR ''i'') ''obs.txt'' 0) (main_locals sample_env) = Next st'
         \<and> out st' = out (main_locals sample_env)
         \<and> observedOutputs (the_untwister st')
             = observedOutputs (the_untwister (main_locals sample_env))
               @ map (\<lambda>line. ucast (strtoul line 0)) (getlines sample_file))
   \<and> unat (ucast (strtoul ''  42'' 0) :: u32) = 42
   \<and> unat (ucast (strtoul ''0x1F'' 0) :: u32) = 31
   \<and> unat (ucast (strtoul ''010'' 0) :: u32) = 8
   \<and> (ucast (strtoul [] 0) :: u32) = 0"
proof -
  note t = input_lines_parsed_by_strtoul_base_0 [OF ifstream_sample, of 0 "main_locals sample_env"]
  note loaded = conjunct1 [OF t]
  have dec: "unat (ucast (strtoul (''  '' @ CHR ''4'' # ''2'') 0) :: u32) = numeral_value 10 (CHR ''4'' # ''2'')"
    by (intro conjunct1 [OF conjunct2 [OF t], rule_format])
      (simp add: isspace_def is_digit_in_def digit_of_def numeral_value_def digit_value_def)
  have hex: "unat (ucast (strtoul ([] @ CHR ''0'' # CHR ''x'' # ''1F'') 0) :: u32) = numeral_value 16 ''1F''"
    by (intro conjunct1 [OF conjunct2 [OF conjunct2 [OF t]], rule_format])
      (simp add: isspace_def is_digit_in_def digit_of_def numeral_value_def digit_value_def)
  have oct: "unat (ucast (strtoul ([] @ CHR ''0'' # ''10'') 0) :: u32) = numeral_value 8 ''10''"
    by (intro conjunct1 [OF conjunct2 [OF conjunct2 [OF conjunct2 [OF t]]], rule_format])
      (simp add: isspace_def is_digit_in_def digit_of_def numeral_value_def digit_value_def)
  have blank: "(ucast (strtoul [] 0) :: u32) = 0"
    by (intro conjunct2 [OF conjunct2 [OF conjunct2 [OF conjunct2 [OF t]]], rule_format]) simp
  have nv: "numeral_value 10 ''42'' = 42" "numeral_value 16 ''1F'' = 31" "numeral_value 8 ''10'' = 8"
    by (simp_all add: numeral_value_def digit_value_def digit_of_def)
  have dec': "unat (ucast (strtoul ''  42'' 0) :: u32) = 42" using dec nv(1) by simp
  have hex': "unat (ucast (strtoul ''0x1F'' 0) :: u32) = 31" using hex nv(2) by simp
  have oct': "unat (ucast (strtoul ''010'' 0) :: u32) = 8" using oct nv(3) by simp
  from ifstream_sample loaded dec' hex' oct' blank show ?thesis by blast
qed

section \<open>The default seed range\<close>

text \<open>
  Claim C10. Unless \<^verbatim>\<open>-u\<close> is given, the brute-force search range defaults to lower
  bound 0 inclusive and upper bound \<^verbatim>\<open>UINT_MAX\<close> (4294967295) exclusive, so the seed
  4294967295 is never evaluated in a default run: when no processed option is
  \<^verbatim>\<open>-u\<close>, every call of \<^verbatim>\<open>bruteforce\<close> that \<^verbatim>\<open>main\<close> makes has the bounds 0 and
  4294967295, and the seeds of that search job are all seeds but 4294967295.
\<close>

theorem default_range_excludes_UINT_MAX:
  assumes "list_all (\<lambda>g. opt_c g \<noteq> CHR ''u'') opts"
    and "Call_bruteforce lo hi \<in> set (snd (main e opts))"
  shows "lo = 0 \<and> hi = 4294967295 \<and> (\<forall>s. seed_evaluated lo hi s = (s \<noteq> 4294967295))"
proof -
  from main_bruteforce_range [OF assms(2)] getopt_loop_bounds [OF assms(1), of e "main_locals e"]
  have lo: "lo = 0" and hi: "hi = 4294967295"
    by (simp_all add: main_locals_def UINT_MAX_def)
  have m: "(4294967295 :: u32) = - 1" by simp
  have "seed_evaluated 0 4294967295 s = (s \<noteq> 4294967295)" for s :: u32
    unfolding m by (simp add: seed_evaluated_def less_le)
  with lo hi show ?thesis by simp
qed

theorem default_range_excludes_UINT_MAX_witness:
  "list_all (\<lambda>g. opt_c g \<noteq> CHR ''u'') [GetOpt (CHR ''i'') ''obs.txt'' 0]
   \<and> Call_bruteforce 0 4294967295 \<in> set (snd (main sample_env [GetOpt (CHR ''i'') ''obs.txt'' 0]))
   \<and> (\<forall>s. seed_evaluated 0 4294967295 s = (s \<noteq> 4294967295))"
proof -
  have h1: "list_all (\<lambda>g. opt_c g \<noteq> CHR ''u'') [GetOpt (CHR ''i'') ''obs.txt'' 0]" by simp
  have h2: "Call_bruteforce 0 4294967295 \<in> set (snd (main sample_env [GetOpt (CHR ''i'') ''obs.txt'' 0]))"
    by (simp add: sample_main Call_bruteforce_FindSeed)
  from default_range_excludes_UINT_MAX [OF h1 h2] h1 h2 show ?thesis by blast
qed

section \<open>The range of the option -u\<close>

text \<open>
  Claim C5. The \<^verbatim>\<open>-u\<close> option sets the brute-force seed range to
  \<open>[now - 31536000, now + 31536000]\<close>, plus or minus one year around the current time in
  seconds since the epoch, the time being read when the option is processed: when the two
  clock readings that the option takes both give \<open>now\<close>, and both bounds fit the
  32-bit seed type, the lower bound becomes \<open>now - 31536000\<close> and the upper bound
  \<open>now + 31536000\<close>; the option reads the clock twice, prints nothing and does not leave
  \<^verbatim>\<open>main\<close>.
\<close>

theorem unix_time_range:
  assumes "time_NULL e (time_calls st) = now" and "time_NULL e (time_calls st + 1) = now"
    and "31536000 \<le> now" and "now + 31536000 < 2 ^ 32"
  shows "\<exists>st'. switch_case e (GetOpt (CHR ''u'') arg oo) st = Next st'
           \<and> uint (lowerBoundSeed st') = now - 31536000
           \<and> uint (upperBoundSeed st') = now + 31536000
           \<and> uint ONE_YEAR = 31536000
           \<and> time_calls st' = time_calls st + 2
           \<and> out st' = out st"
proof -
  have "uint (word_of_int (now - 31536000) :: u32) = now - 31536000"
    using assms(3,4) by (intro uint_word_of_int_u32) simp_all
  moreover have "uint (word_of_int (now + 31536000) :: u32) = now + 31536000"
    using assms(3,4) by (intro uint_word_of_int_u32) simp_all
  ultimately show ?thesis
    using assms(1,2) by (simp add: switch_case_u ONE_YEAR_def)
qed

theorem unix_time_range_witness:
  "time_NULL sample_env (time_calls (main_locals sample_env)) = 1793562000
   \<and> time_NULL sample_env (time_calls (main_locals sample_env) + 1) = 1793562000
   \<and> (\<exists>st'. switch_case sample_env (GetOpt (CHR ''u'') [] 0) (main_locals sample_env) = Next st'
         \<and> uint (lowerBoundSeed st') = 1793562000 - 31536000
         \<and> uint (upperBoundSeed st') = 1793562000 + 31536000
         \<and> uint ONE_YEAR = 31536000
         \<and> time_calls st' = time_calls (main_locals sample_env) + 2
         \<and> out st' = out (main_locals sample_env))"
proof -
  have h1: "time_NULL sample_env (time_calls (main_locals sample_env)) = 1793562000"
    by (simp add: sample_env_def)
  have h2: "time_NULL sample_env (time_calls (main_locals sample_env) + 1) = 1793562000"
    by (simp add: sample_env_def)
  have h3: "(31536000 :: int) \<le> 1793562000" by simp
  have h4: "(1793562000 :: int) + 31536000 < 2 ^ 32" by simp
  from unix_time_range [OF h1 h2 h3 h4, of "[]" 0] h1 h2 show ?thesis by blast
qed

section \<open>The report of the search\<close>

text \<open>
  Claim C8. For every candidate result returned by the brute-force search, the program
  prints exactly one line of the form \<^verbatim>\<open>Found seed <N> with a confidence of <P>%\<close>, in
  the order the results were returned: after the header of \<^verbatim>\<open>FindSeed\<close> (which ends
  with the elapsed time) the output is one such line for each result, in order, each
  preceded by the colour macro \<^verbatim>\<open>SUCCESS\<close>.
\<close>

theorem found_seed_lines:
  "FindSeed e u lower upper =
     FindSeed_header e u lower upper
     @ map (\<lambda>r. Stdout (SUCCESS e @ ''Found seed '' @ show_nat (unat (fst r))
                          @ '' with a confidence of '' @ show_double e (snd r) @ ''%''))
         (bruteforce e u lower upper)"
  by (simp add: FindSeed_def print_results_drop found_line_def)

section \<open>Inference first, then brute force\<close>

text \<open>
  Claim C2. When observations are loaded and generation mode is not selected, the program
  first attempts state inference; if inference succeeds it exits successfully without
  brute forcing, and if inference fails it falls back to the brute-force seed search over
  the configured range. Here \<open>st\<close> holds the local variables once every option has been
  processed: up to then the run has made no call, only output; the call of
  \<^verbatim>\<open>inferState\<close> is the next action, the exit code is \<^verbatim>\<open>EXIT_SUCCESS\<close> either way,
  and \<^verbatim>\<open>bruteforce\<close> is called, with the two bounds held by \<open>st\<close>, exactly when the
  inference fails.
\<close>

theorem inference_before_bruteforce:
  assumes "getopt_loop e opts (main_locals e) = Next st"
    and "observedOutputs (the_untwister st) \<noteq> []"
    and "\<not> generateFlag st"
  shows "fst (main e opts) = EXIT_SUCCESS
       \<and> list_all is_output (out st)
       \<and> snd (main e opts)
           = out st @ Call_inferState
               # (if inferState e (the_untwister st) then []
                  else FindSeed e (the_untwister st) (lowerBoundSeed st) (upperBoundSeed st))
       \<and> (if inferState e (the_untwister st)
           then \<forall>lo hi. Call_bruteforce lo hi \<notin> set (snd (main e opts))
           else \<forall>lo hi. Call_bruteforce lo hi \<in> set (snd (main e opts))
                  \<longleftrightarrow> lo = lowerBoundSeed st \<and> hi = upperBoundSeed st)"
proof -
  have outs: "list_all is_output (out st)"
    by (rule getopt_loop_Next_out [OF assms(1)])
  then have nb: "Call_bruteforce lo hi \<notin> set (out st)" for lo hi
    by (rule Call_bruteforce_not_output)
  have code: "fst (main e opts) = EXIT_SUCCESS"
    using assms by (simp add: main_def Let_def)
  have evs: "snd (main e opts)
           = out st @ Call_inferState
               # (if inferState e (the_untwister st) then []
                  else FindSeed e (the_untwister st) (lowerBoundSeed st) (upperBoundSeed st))"
    using assms by (simp add: main_def Let_def)
  have calls: "if inferState e (the_untwister st)
           then \<forall>lo hi. Call_bruteforce lo hi \<notin> set (snd (main e opts))
           else \<forall>lo hi. Call_bruteforce lo hi \<in> set (snd (main e opts))
                  \<longleftrightarrow> lo = lowerBoundSeed st \<and> hi = upperBoundSeed st"
    using nb by (simp add: evs Call_bruteforce_FindSeed)
  from code outs evs calls show ?thesis by (intro conjI)
qed

theorem inference_before_bruteforce_witness:
  "fst (main sample_env [GetOpt (CHR ''i'') ''obs.txt'' 0]) = EXIT_SUCCESS
   \<and> snd (main sample_env [GetOpt (CHR ''i'') ''obs.txt'' 0])
       = Call_inferState
         # FindSeed sample_env ((new_Untwister sample_env)\<lparr>observedOutputs := [42, 31, 8, 0, 0]\<rparr>)
             0 4294967295
   \<and> \<not> inferState sample_env ((new_Untwister sample_env)\<lparr>observedOutputs := [42, 31, 8, 0, 0]\<rparr>)
   \<and> fst (main inferring_env [GetOpt (CHR ''i'') ''obs.txt'' 0]) = EXIT_SUCCESS
   \<and> snd (main inferring_env [GetOpt (CHR ''i'') ''obs.txt'' 0]) = [Call_inferState]
   \<and> (\<forall>lo hi. Call_bruteforce lo hi \<notin> set (snd (main inferring_env [GetOpt (CHR ''i'') ''obs.txt'' 0])))"
proof -
  let ?st = "(main_locals sample_env)
         \<lparr>the_untwister := (new_Untwister sample_env)\<lparr>observedOutputs := [42, 31, 8, 0, 0]\<rparr>\<rparr>"
  have a2: "observedOutputs (the_untwister ?st) \<noteq> []" by simp
  have a3: "\<not> generateFlag ?st" by (simp add: main_locals_def)
  note a = inference_before_bruteforce [OF sample_getopt_loop a2 a3]
  have nf: "\<not> inferState sample_env ((new_Untwister sample_env)\<lparr>observedOutputs := [42, 31, 8, 0, 0]\<rparr>)"
    by (simp add: sample_env_def)
  have a_code: "fst (main sample_env [GetOpt (CHR ''i'') ''obs.txt'' 0]) = EXIT_SUCCESS"
    using a by blast
  have a_evs: "snd (main sample_env [GetOpt (CHR ''i'') ''obs.txt'' 0])
       = Call_inferState
         # FindSeed sample_env ((new_Untwister sample_env)\<lparr>observedOutputs := [42, 31, 8, 0, 0]\<rparr>)
             0 4294967295"
    using a nf by (simp add: main_locals_def UINT_MAX_def)
  let ?st2 = "(main_locals inferring_env)
         \<lparr>the_untwister := getline_loop (getlines sample_file) (new_Untwister inferring_env)\<rparr>"
  have b2: "observedOutputs (the_untwister ?st2) \<noteq> []"
    by (simp add: getline_loop_observedOutputs getlines_sample_file del: getline_loop.simps)
  have b3: "\<not> generateFlag ?st2" by (simp add: main_locals_def)
  note b = inference_before_bruteforce [OF inferring_getopt_loop b2 b3]
  have yes: "inferState inferring_env (the_untwister ?st2)"
    by (simp add: inferring_env_def)
  have b_code: "fst (main inferring_env [GetOpt (CHR ''i'') ''obs.txt'' 0]) = EXIT_SUCCESS"
    using b by blast
  have b_evs: "snd (main inferring_env [GetOpt (CHR ''i'') ''obs.txt'' 0]) = [Call_inferState]"
    using b yes by (simp add: main_locals_def)
  have b_calls: "\<forall>lo hi. Call_bruteforce lo hi \<notin> set (snd (main inferring_env [GetOpt (CHR ''i'') ''obs.txt'' 0]))"
  proof -
    from b have "if inferState inferring_env (the_untwister ?st2)
           then \<forall>lo hi. Call_bruteforce lo hi \<notin> set (snd (main inferring_env [GetOpt (CHR ''i'') ''obs.txt'' 0]))
           else \<forall>lo hi. Call_bruteforce lo hi \<in> set (snd (main inferring_env [GetOpt (CHR ''i'') ''obs.txt'' 0]))
                  \<longleftrightarrow> lo = lowerBoundSeed ?st2 \<and> hi = upperBoundSeed ?st2"
      by blast
    then show ?thesis unfolding if_P [OF yes] .
  qed
  from a_code a_evs nf b_code b_evs b_calls show ?thesis by (intro conjI)
qed

section \<open>Sample generation\<close>

text \<open>
  Claim C3. In sample-generation mode (\<^verbatim>\<open>-g SEED\<close>), if no observations have been loaded
  the program emits a sample generated from the given seed, and otherwise it emits a sample
  continued from the inferred state; in both cases it prints each generated value on its
  own line and exits with code 0. Here \<open>st\<close> holds the local variables once every option
  has been processed; its seed is the argument of a \<^verbatim>\<open>-g\<close> option, converted by
  \<^verbatim>\<open>strtoul\<close> in base 10.
\<close>

theorem generation_mode:
  assumes "getopt_loop e opts (main_locals e) = Next st"
    and "generateFlag st"
  shows "fst (main e opts) = EXIT_SUCCESS
       \<and> EXIT_SUCCESS = 0
       \<and> (\<exists>g\<in>set opts. opt_c g = CHR ''g'' \<and> seed st = ucast (strtoul (optarg g) 10))
       \<and> list_all is_output (out st)
       \<and> snd (main e opts)
           = out st
             @ (if observedOutputs (the_untwister st) = []
                then Call_generateSampleFromSeed (seed st)
                       # map (\<lambda>v. Stdout (show_nat (unat v)))
                           (generateSampleFromSeed e (the_untwister st) (seed st))
                else Call_generateSampleFromState
                       # map (\<lambda>v. Stdout (show_nat (unat v)))
                           (generateSampleFromState e (the_untwister st)))"
proof -
  have code: "fst (main e opts) = EXIT_SUCCESS"
    using assms by (simp add: main_def Let_def)
  have given: "\<exists>g\<in>set opts. opt_c g = CHR ''g'' \<and> seed st = ucast (strtoul (optarg g) 10)"
    using getopt_loop_generate [OF assms] by (simp add: main_locals_def)
  have outs: "list_all is_output (out st)"
    by (rule getopt_loop_Next_out [OF assms(1)])
  have evs: "snd (main e opts)
           = out st
             @ (if observedOutputs (the_untwister st) = []
                then Call_generateSampleFromSeed (seed st)
                       # map (\<lambda>v. Stdout (show_nat (unat v)))
                           (generateSampleFromSeed e (the_untwister st) (seed st))
                else Call_generateSampleFromState
                       # map (\<lambda>v. Stdout (show_nat (unat v)))
                           (generateSampleFromState e (the_untwister st)))"
    using assms by (simp add: main_def Let_def print_sample_drop)
  from code given outs evs show ?thesis by (simp add: EXIT_SUCCESS_def)
qed

theorem generation_mode_witness:
  "fst (main sample_env [GetOpt (CHR ''g'') ''42'' 0]) = 0
   \<and> snd (main sample_env [GetOpt (CHR ''g'') ''42'' 0])
       = [Call_generateSampleFromSeed 42, Stdout ''42'', Stdout ''43'']
   \<and> fst (main sample_env [GetOpt (CHR ''i'') ''obs.txt'' 0, GetOpt (CHR ''g'') ''42'' 0]) = 0
   \<and> snd (main sample_env [GetOpt (CHR ''i'') ''obs.txt'' 0, GetOpt (CHR ''g'') ''42'' 0])
       = [Call_generateSampleFromState, Stdout ''7'']"
proof -
  let ?st = "(main_locals sample_env)\<lparr>seed := 42, generateFlag := True\<rparr>"
  have g: "generateFlag ?st" by simp
  note a = generation_mode [OF sample_getopt_loop_g g]
  have none: "observedOutputs (the_untwister ?st) = []"
    by (simp add: main_locals_def new_Untwister_def)
  have code: "fst (main sample_env [GetOpt (CHR ''g'') ''42'' 0]) = 0"
    using a by simp
  have sample: "generateSampleFromSeed sample_env (the_untwister ?st) 42 = [42, 43]"
    by (simp add: sample_env_def)
  have "snd (main sample_env [GetOpt (CHR ''g'') ''42'' 0])
       = [Call_generateSampleFromSeed 42, Stdout (show_nat (unat (42 :: u32))), Stdout (show_nat (unat (43 :: u32)))]"
    using a none sample by (simp add: main_locals_def)
  then have evs: "snd (main sample_env [GetOpt (CHR ''g'') ''42'' 0])
       = [Call_generateSampleFromSeed 42, Stdout ''42'', Stdout ''43'']"
    by (simp add: show_nat.simps)
  let ?st2 = "(main_locals sample_env)
         \<lparr>seed := 42, generateFlag := True,
          the_untwister := (new_Untwister sample_env)\<lparr>observedOutputs := [42, 31, 8, 0, 0]\<rparr>\<rparr>"
  have g2: "generateFlag ?st2" by simp
  note b = generation_mode [OF sample_getopt_loop_i_g g2]
  have code2: "fst (main sample_env [GetOpt (CHR ''i'') ''obs.txt'' 0, GetOpt (CHR ''g'') ''42'' 0]) = 0"
    using b by simp
  have sample2: "generateSampleFromState sample_env (the_untwister ?st2) = [7]"
    by (simp add: sample_env_def)
  have "snd (main sample_env [GetOpt (CHR ''i'') ''obs.txt'' 0, GetOpt (CHR ''g'') ''42'' 0])
       = [Call_generateSampleFromState, Stdout (show_nat (unat (7 :: u32)))]"
    using b sample2 by (simp add: main_locals_def)
  then have evs2: "snd (main sample_env [GetOpt (CHR ''i'') ''obs.txt'' 0, GetOpt (CHR ''g'') ''42'' 0])
       = [Call_generateSampleFromState, Stdout ''7'']"
    by (simp add: show_nat.simps)
  from code evs code2 evs2 show ?thesis by (intro conjI)
qed

section \<open>Exit codes\<close>

text \<open>
  What holds of the exit code: an option that \<^verbatim>\<open>getopt\<close> does not accept and an
  algorithm name that is not supported end the run with \<^verbatim>\<open>EXIT_FAILURE\<close>, whatever
  options were processed before; so does a run that has no observations and is not in
  generation mode, which covers a file that cannot be read and is the only input. A run
  that has observations ends with \<^verbatim>\<open>EXIT_SUCCESS\<close>, whatever the search finds.
\<close>

lemma exit_unknown_option:
  assumes "getopt_loop e gs (main_locals e) = Next st"
  shows "fst (main e (gs @ GetOpt (CHR ''?'') arg oo # rest)) = EXIT_FAILURE"
proof -
  have "\<exists>st'. switch_case e (GetOpt (CHR ''?'') arg oo) st = Return EXIT_FAILURE st'"
    by (simp add: switch_case_def Let_def)
  then obtain st' where "getopt_loop e (gs @ GetOpt (CHR ''?'') arg oo # rest) (main_locals e) = Return EXIT_FAILURE st'"
    using assms by (auto simp: getopt_loop_append)
  then show ?thesis by (rule main_Return)
qed

lemma exit_unsupported_prng:
  assumes "getopt_loop e gs (main_locals e) = Next st" and "\<not> isSupportedPRNG e name"
  shows "fst (main e (gs @ GetOpt (CHR ''r'') name oo # rest)) = EXIT_FAILURE"
proof -
  have "\<exists>st'. switch_case e (GetOpt (CHR ''r'') name oo) st = Return EXIT_FAILURE st'"
    using assms(2) by (simp add: switch_case_def Let_def)
  then obtain st' where "getopt_loop e (gs @ GetOpt (CHR ''r'') name oo # rest) (main_locals e) = Return EXIT_FAILURE st'"
    using assms(1) by (auto simp: getopt_loop_append)
  then show ?thesis by (rule main_Return)
qed

lemma exit_no_observations:
  assumes "getopt_loop e opts (main_locals e) = Next st"
    and "observedOutputs (the_untwister st) = []" and "\<not> generateFlag st"
  shows "fst (main e opts) = EXIT_FAILURE"
  using assms by (simp add: main_def Let_def)

lemma exit_search_done:
  assumes "getopt_loop e opts (main_locals e) = Next st"
    and "observedOutputs (the_untwister st) \<noteq> []"
  shows "fst (main e opts) = EXIT_SUCCESS"
  using assms by (simp add: main_def Let_def)

lemma exit_unreadable_file_alone:
  assumes "ifstream e path = None"
  shows "fst (main e [GetOpt (CHR ''i'') path oo]) = EXIT_FAILURE"
  using assms by (simp add: main_def Let_def switch_case_def main_locals_def new_Untwister_def emit_def)

text \<open>
  Claim C1 says that the exit code is non-zero on an unreadable input file given to
  \<^verbatim>\<open>-i\<close>. The case \<^verbatim>\<open>'i'\<close> of \<^verbatim>\<open>main\<close> writes its error message and, unlike the
  other cases that write one, does not return: with \<^verbatim>\<open>-i\<close> naming a file that cannot
  be opened, followed by \<^verbatim>\<open>-g\<close>, the run writes the error message, then a sample
  generated from the seed, and exits with code 0.
\<close>

theorem unreadable_file_exit_success:
  assumes "ifstream e path = None"
  shows "fst (main e [GetOpt (CHR ''i'') path oo, GetOpt (CHR ''g'') arg oo']) = EXIT_SUCCESS
       \<and> EXIT_SUCCESS = 0
       \<and> snd (main e [GetOpt (CHR ''i'') path oo, GetOpt (CHR ''g'') arg oo'])
           = Stderr (WARN e @ ''ERROR: File '' @ quoted path @ '' not found'')
             # Call_generateSampleFromSeed (ucast (strtoul arg 10))
             # print_sample (generateSampleFromSeed e (new_Untwister e) (ucast (strtoul arg 10))) 0"
  using assms
  by (simp add: main_def Let_def switch_case_def main_locals_def new_Untwister_def emit_def
      EXIT_SUCCESS_def)

theorem unreadable_file_exit_success_witness:
  "ifstream sample_env ''nofile'' = None
   \<and> fst (main sample_env [GetOpt (CHR ''i'') ''nofile'' 0, GetOpt (CHR ''g'') ''42'' 0]) = EXIT_SUCCESS
   \<and> EXIT_SUCCESS = 0"
proof -
  have h: "ifstream sample_env ''nofile'' = None" by (simp add: sample_env_def)
  from unreadable_file_exit_success [OF h, of 0 "''42''" 0] h show ?thesis by blast
qed

section \<open>Configuration values\<close>

text \<open>
  What holds of the options \<^verbatim>\<open>-d\<close>, \<^verbatim>\<open>-t\<close> and \<^verbatim>\<open>-c\<close>: a depth or a worker
  count that converts to 0 is rejected with an error message and \<^verbatim>\<open>EXIT_FAILURE\<close>, any
  other is installed; a confidence that is a number is rejected when it is at most 0 or
  above 100, and installed otherwise; an infinite one is rejected.
\<close>

lemma depth_rejected:
  assumes "(ucast (strtoul arg 10) :: u32) = 0"
  shows "switch_case e (GetOpt (CHR ''d'') arg oo) st =
           Return EXIT_FAILURE (emit (Stderr (WARN e @ ''ERROR: Please enter a valid depth > 1'')) st)"
  using assms by (simp add: switch_case_def Let_def)

lemma depth_accepted:
  assumes "(ucast (strtoul arg 10) :: u32) = d" and "d \<noteq> 0"
  shows "\<exists>st'. switch_case e (GetOpt (CHR ''d'') arg oo) st = Next st' \<and> depth (the_untwister st') = d"
  using assms by (auto simp: switch_case_def setDepth_def Let_def)

lemma threads_rejected:
  assumes "(ucast (strtoul arg 10) :: u32) = 0"
  shows "switch_case e (GetOpt (CHR ''t'') arg oo) st =
           Return EXIT_FAILURE
             (emit (Stderr (WARN e @ ''ERROR: Please enter a valid number of threads > 1'')) st)"
  using assms by (simp add: switch_case_def Let_def)

lemma threads_accepted:
  assumes "(ucast (strtoul arg 10) :: u32) = n" and "n \<noteq> 0"
  shows "\<exists>st'. switch_case e (GetOpt (CHR ''t'') arg oo) st = Next st' \<and> threads (the_untwister st') = n"
  using assms by (auto simp: switch_case_def setThreads_def Let_def)

lemma confidence_rejected:
  assumes "atof e arg = Finite x" and "x \<le> 0 \<or> 100 < x"
  shows "switch_case e (GetOpt (CHR ''c'') arg oo) st =
           Return EXIT_FAILURE (emit (Stderr (WARN e @ ''ERROR: Invalid confidence percentage '')) st)"
  using assms by (auto simp: switch_case_def Let_def)

lemma confidence_accepted:
  assumes "atof e arg = Finite x" and "0 < x" and "x \<le> 100"
  shows "\<exists>st'. switch_case e (GetOpt (CHR ''c'') arg oo) st = Next st'
           \<and> minConfidence (the_untwister st') = Finite x"
  using assms by (auto simp: switch_case_def setMinConfidence_def Let_def)

lemma confidence_infinite_rejected:
  assumes "atof e arg = PlusInf \<or> atof e arg = MinusInf"
  shows "switch_case e (GetOpt (CHR ''c'') arg oo) st =
           Return EXIT_FAILURE (emit (Stderr (WARN e @ ''ERROR: Invalid confidence percentage '')) st)"
  using assms by (auto simp: switch_case_def Let_def)

text \<open>
  Claim C4 says that a minimum confidence that is not strictly greater than 0 and at most
  100 causes an error message and a non-zero exit. The test of the case \<^verbatim>\<open>'c'\<close> is
  \<^verbatim>\<open>minimumConfidence <= 0 || 100.0 < minimumConfidence\<close>; both comparisons are false
  for a NaN, which \<^verbatim>\<open>atof\<close> returns for the argument \<^verbatim>\<open>nan\<close>: the value is neither
  above 0 nor at most 100, and it is announced and installed.
\<close>

theorem nan_confidence_accepted:
  assumes "atof e arg = NaN"
  shows "\<not> (double_less (Finite 0) NaN \<and> double_le NaN (Finite 100))
       \<and> switch_case e (GetOpt (CHR ''c'') arg oo) st
           = Next ((emit (Stdout (INFO e @ ''Minimum confidence set to: '' @ show_double e NaN)) st)
                     \<lparr>the_untwister := setMinConfidence NaN (the_untwister st)\<rparr>)
       \<and> minConfidence (setMinConfidence NaN (the_untwister st)) = NaN"
  using assms by (simp add: switch_case_def setMinConfidence_def Let_def)

theorem nan_confidence_accepted_witness:
  "atof sample_env ''nan'' = NaN
   \<and> \<not> (double_less (Finite 0) NaN \<and> double_le NaN (Finite 100))
   \<and> switch_case sample_env (GetOpt (CHR ''c'') ''nan'' 0) (main_locals sample_env)
       = Next ((emit (Stdout (INFO sample_env @ ''Minimum confidence set to: '' @ show_double sample_env NaN))
                  (main_locals sample_env))
                 \<lparr>the_untwister := setMinConfidence NaN (the_untwister (main_locals sample_env))\<rparr>)
   \<and> minConfidence (setMinConfidence NaN (the_untwister (main_locals sample_env))) = NaN"
proof -
  have h: "atof sample_env ''nan'' = NaN" by (simp add: sample_env_def)
  from nan_confidence_accepted [OF h, of 0 "main_locals sample_env"] h show ?thesis by blast
qed

section \<open>The progress reporter's loop\<close>

lemma progress_loop_terminates:
  assumes "isCompleted_load pe (k + n)" and "\<forall>j<n. \<not> isCompleted_load pe (k + j)"
  shows "progress_loop pe totalWork k r = Some (polls pe totalWork k n r)"
  using assms
proof (induction n arbitrary: k r)
  case 0
  then show ?case by (subst progress_loop.simps) simp
next
  case (Suc n)
  from Suc.prems(2) have nk: "\<not> isCompleted_load pe k" by (metis add.right_neutral zero_less_Suc)
  have a: "isCompleted_load pe (k + 1 + n)" using Suc.prems(1) by simp
  have b: "\<forall>j<n. \<not> isCompleted_load pe (k + 1 + j)"
  proof (intro allI impI)
    fix j assume "j < n"
    then have "Suc j < Suc n" by simp
    with Suc.prems(2) have "\<not> isCompleted_load pe (k + Suc j)" by blast
    then show "\<not> isCompleted_load pe (k + 1 + j)" by simp
  qed
  have "progress_loop pe totalWork k r = progress_loop pe totalWork (k + 1) (progress_poll pe totalWork k r)"
    using nk by (subst progress_loop.simps) simp
  also have "\<dots> = Some (polls pe totalWork (k + 1) n (progress_poll pe totalWork k r))"
    by (rule Suc.IH [OF a b])
  finally show ?case by simp
qed

lemma progress_loop_only_when:
  assumes "progress_loop pe totalWork k r = Some r'"
  shows "\<exists>n. isCompleted_load pe (k + n)"
proof (rule progress_loop.raw_induct
    [where P = "\<lambda>pe totalWork k r r'. \<exists>n. isCompleted_load pe (k + n)"], goal_cases)
  case (1 f pe totalWork k r r')
  show ?case
  proof (cases "isCompleted_load pe k")
    case True
    then have "isCompleted_load pe (k + 0)" by simp
    then show ?thesis by blast
  next
    case False
    have f1: "f pe totalWork (k + 1) (progress_poll pe totalWork k r) = Some r'"
      using 1(2) False by simp
    from 1(1) [OF f1] obtain n where "isCompleted_load pe (k + 1 + n)" by blast
    then have "isCompleted_load pe (k + Suc n)" by simp
    then show ?thesis by blast
  qed
next
  show "progress_loop pe totalWork k r = Some r'" by (rule assms)
qed


lemma first_index:
  fixes P :: "nat \<Rightarrow> bool" and k n :: nat
  assumes "P (k + n)"
  shows "\<exists>m. P (k + m) \<and> (\<forall>j<m. \<not> P (k + j))"
proof -
  let ?m = "LEAST m. P (k + m)"
  have "P (k + ?m)" using assms by (rule LeastI [of "\<lambda>m. P (k + m)" n])
  moreover have "\<forall>j<?m. \<not> P (k + j)" using not_less_Least by blast
  ultimately show ?thesis by blast
qed

lemma progress_loop_iff:
  "(\<exists>r'. progress_loop pe totalWork k r = Some r') \<longleftrightarrow> (\<exists>n. isCompleted_load pe (k + n))"
proof
  assume "\<exists>r'. progress_loop pe totalWork k r = Some r'"
  then show "\<exists>n. isCompleted_load pe (k + n)" using progress_loop_only_when by blast
next
  assume "\<exists>n. isCompleted_load pe (k + n)"
  then obtain m where "isCompleted_load pe (k + m)" "\<forall>j<m. \<not> isCompleted_load pe (k + j)"
    using first_index [of "isCompleted_load pe" k] by blast
  then show "\<exists>r'. progress_loop pe totalWork k r = Some r'"
    using progress_loop_terminates by blast
qed

lemma wait_isRunning_terminates:
  assumes "isRunning_load pe (k + n)" and "\<forall>j<n. \<not> isRunning_load pe (k + j)"
  shows "wait_isRunning pe k = Some (k + n)"
  using assms
proof (induction n arbitrary: k)
  case 0
  then show ?case by (subst wait_isRunning.simps) simp
next
  case (Suc n)
  from Suc.prems(2) have nk: "\<not> isRunning_load pe k" by (metis add.right_neutral zero_less_Suc)
  have a: "isRunning_load pe (k + 1 + n)" using Suc.prems(1) by simp
  have b: "\<forall>j<n. \<not> isRunning_load pe (k + 1 + j)"
  proof (intro allI impI)
    fix j assume "j < n"
    then have "Suc j < Suc n" by simp
    with Suc.prems(2) have "\<not> isRunning_load pe (k + Suc j)" by blast
    then show "\<not> isRunning_load pe (k + 1 + j)" by simp
  qed
  have "wait_isRunning pe k = wait_isRunning pe (k + 1)"
    using nk by (subst wait_isRunning.simps) simp
  also have "\<dots> = Some (k + 1 + n)" by (rule Suc.IH [OF a b])
  finally show ?case by simp
qed

lemma wait_isRunning_only_when:
  assumes "wait_isRunning pe k = Some s"
  shows "\<exists>n. isRunning_load pe (k + n)"
proof (rule wait_isRunning.raw_induct [where P = "\<lambda>pe k s. \<exists>n. isRunning_load pe (k + n)"], goal_cases)
  case (1 f pe k s)
  show ?case
  proof (cases "isRunning_load pe k")
    case True
    then have "isRunning_load pe (k + 0)" by simp
    then show ?thesis by blast
  next
    case False
    have f1: "f pe (k + 1) = Some s" using 1(2) False by simp
    from 1(1) [OF f1] obtain n where "isRunning_load pe (k + 1 + n)" by blast
    then have "isRunning_load pe (k + Suc n)" by simp
    then show ?thesis by blast
  qed
next
  show "wait_isRunning pe k = Some s" by (rule assms)
qed

lemma wait_isRunning_iff:
  "(\<exists>s. wait_isRunning pe k = Some s) \<longleftrightarrow> (\<exists>n. isRunning_load pe (k + n))"
proof
  assume "\<exists>s. wait_isRunning pe k = Some s"
  then show "\<exists>n. isRunning_load pe (k + n)" using wait_isRunning_only_when by blast
next
  assume "\<exists>n. isRunning_load pe (k + n)"
  then obtain m where "isRunning_load pe (k + m)" "\<forall>j<m. \<not> isRunning_load pe (k + j)"
    using first_index [of "isRunning_load pe" k] by blast
  then show "\<exists>s. wait_isRunning pe k = Some s"
    using wait_isRunning_terminates by blast
qed

lemma DisplayProgress_iff:
  "(\<exists>evs. DisplayProgress pe totalWork = Some evs)
     \<longleftrightarrow> (\<exists>s. isRunning_load pe s) \<and> (\<exists>n. isCompleted_load pe n)"
proof -
  have w: "(\<exists>s. wait_isRunning pe 0 = Some s) \<longleftrightarrow> (\<exists>s. isRunning_load pe s)"
    using wait_isRunning_iff [of pe 0] by simp
  have l: "(\<exists>r'. progress_loop pe totalWork 0 r = Some r') \<longleftrightarrow> (\<exists>n. isCompleted_load pe n)" for r
    using progress_loop_iff [of pe totalWork 0 r] by simp
  show ?thesis
  proof (cases "wait_isRunning pe 0")
    case None
    with w show ?thesis by (simp add: DisplayProgress_def)
  next
    case (Some s)
    with w have run: "\<exists>s. isRunning_load pe s" by blast
    show ?thesis
    proof (cases "progress_loop pe totalWork 0 (reporter_init s)")
      case None
      with l [of "reporter_init s"] Some show ?thesis by (simp add: DisplayProgress_def)
    next
      case (Some r')
      with l [of "reporter_init s"] \<open>wait_isRunning pe 0 = Some s\<close> run
      show ?thesis by (auto simp: DisplayProgress_def)
    qed
  qed
qed

lemma progress_poll_shown:
  "\<exists>c p s t. shown (progress_poll pe totalWork k r)
     = shown r @ [Progress_line c p (foldl (+) 0 (status_at pe k)) totalWork s t, Sleep_ms 100]"
  by (simp add: progress_poll_def Let_def)

lemma progress_poll_count: "count (progress_poll pe totalWork k r) = count r + 1"
  by (simp add: progress_poll_def Let_def)

lemma progress_poll_timeLeft:
  "count r mod 20 \<noteq> 0 \<Longrightarrow> timeLeft (progress_poll pe totalWork k r) = timeLeft r"
  by (auto simp: progress_poll_def Let_def)

lemma polls_Suc:
  "polls pe totalWork k (Suc n) r = progress_poll pe totalWork (k + n) (polls pe totalWork k n r)"
  by (induction n arbitrary: k r) simp_all

lemma polls_count: "count (polls pe totalWork k n r) = count r + of_nat n"
  by (induction n arbitrary: k r) (simp_all add: progress_poll_count)

lemma of_nat_mod_20:
  assumes "j < 2 ^ 32" and "j mod 20 \<noteq> 0"
  shows "(of_nat j :: u32) mod 20 \<noteq> 0"
proof
  assume "(of_nat j :: u32) mod 20 = 0"
  then have "unat ((of_nat j :: u32) mod 20) = 0" by simp
  then have "unat (of_nat j :: u32) mod 20 = 0" by (simp add: unat_mod)
  with assms(1) have "j mod 20 = 0" by (simp add: unat_of_nat)
  with assms(2) show False by simp
qed

lemma polls_timeLeft:
  assumes "j < 2 ^ 32" and "j mod 20 \<noteq> 0" and "count r = 0"
  shows "timeLeft (polls pe totalWork k (Suc j) r) = timeLeft (polls pe totalWork k j r)"
proof -
  have "count (polls pe totalWork k j r) mod 20 \<noteq> 0"
    using of_nat_mod_20 [OF assms(1,2)] assms(3) by (simp add: polls_count)
  then show ?thesis unfolding polls_Suc by (rule progress_poll_timeLeft)
qed

lemma DisplayProgress_result:
  assumes "isRunning_load pe w" and "\<forall>j<w. \<not> isRunning_load pe j"
    and "isCompleted_load pe n" and "\<forall>j<n. \<not> isCompleted_load pe j"
  shows "DisplayProgress pe totalWork = Some (shown (polls pe totalWork 0 n (reporter_init w)) @ [Clear_line])"
proof -
  have "wait_isRunning pe 0 = Some (0 + w)"
    using assms(1,2) by (intro wait_isRunning_terminates) simp_all
  moreover have "progress_loop pe totalWork 0 (reporter_init w) = Some (polls pe totalWork 0 n (reporter_init w))"
    using assms(3,4) by (intro progress_loop_terminates) simp_all
  ultimately show ?thesis by (simp add: DisplayProgress_def)
qed

lemma sample_reporter_run:
  "\<exists>l1 l2. DisplayProgress sample_reporter 10
     = Some [Sleep_ms 100, l1, Sleep_ms 100, l2, Sleep_ms 100, Clear_line]"
proof -
  have "DisplayProgress sample_reporter 10
      = Some (shown (polls sample_reporter 10 0 2 (reporter_init 1)) @ [Clear_line])"
    by (rule DisplayProgress_result) (auto simp: sample_reporter_def)
  then show ?thesis
    by (simp add: numeral_2_eq_2 progress_poll_def Let_def reporter_init_def)
qed

lemma progress_poll_fields:
  "percent (progress_poll pe totalWork k r)
     = times_double pe (divide_double pe (to_double pe (foldl (+) 0 (status_at pe k))) (to_double pe totalWork))
         (Finite 100)
   \<and> seedsPerSec (progress_poll pe totalWork k r)
     = (if double_less (Finite 0) (time_span_at pe k)
        then divide_double pe (to_double pe (foldl (+) 0 (status_at pe k))) (time_span_at pe k)
        else seedsPerSec r)
   \<and> timeLeft (progress_poll pe totalWork k r)
     = (if double_less (Finite 0) (time_span_at pe k) \<and> count r mod 20 = 0
        then divide_double pe
               (divide_double pe (to_double pe (totalWork - foldl (+) 0 (status_at pe k)))
                  (divide_double pe (to_double pe (foldl (+) 0 (status_at pe k))) (time_span_at pe k)))
               (Finite 60)
        else timeLeft r)
   \<and> count (progress_poll pe totalWork k r) = count r + 1"
  by (auto simp: progress_poll_def Let_def)

lemma progress_poll_shown_exact:
  "shown (progress_poll pe totalWork k r)
     = shown r
       @ [Progress_line (spinner ! unat (count r mod 4))
            (percent (progress_poll pe totalWork k r))
            (foldl (+) 0 (status_at pe k)) totalWork
            (seedsPerSec (progress_poll pe totalWork k r))
            (timeLeft (progress_poll pe totalWork k r)),
          Sleep_ms 100]"
  by (simp add: progress_poll_def Let_def)

lemma polls_shown:
  "shown (polls pe totalWork k n r)
     = shown r
       @ concat (map (\<lambda>i. [Progress_line (spinner ! unat ((count r + of_nat i) mod 4))
                              (percent (polls pe totalWork k (Suc i) r))
                              (foldl (+) 0 (status_at pe (k + i))) totalWork
                              (seedsPerSec (polls pe totalWork k (Suc i) r))
                              (timeLeft (polls pe totalWork k (Suc i) r)),
                            Sleep_ms 100]) [0..<n])"
proof (induction n)
  case 0
  then show ?case by simp
next
  case (Suc n)
  have "shown (polls pe totalWork k (Suc n) r)
      = shown (polls pe totalWork k n r)
        @ [Progress_line (spinner ! unat (count (polls pe totalWork k n r) mod 4))
             (percent (polls pe totalWork k (Suc n) r))
             (foldl (+) 0 (status_at pe (k + n))) totalWork
             (seedsPerSec (polls pe totalWork k (Suc n) r))
             (timeLeft (polls pe totalWork k (Suc n) r)),
           Sleep_ms 100]"
    unfolding polls_Suc by (rule progress_poll_shown_exact)
  then show ?case
    unfolding Suc.IH polls_count by simp
qed

lemma of_nat_mod_20_iff:
  assumes "j < 2 ^ 32"
  shows "(of_nat j :: u32) mod 20 = 0 \<longleftrightarrow> j mod 20 = 0"
proof
  assume "(of_nat j :: u32) mod 20 = 0"
  then show "j mod 20 = 0" using of_nat_mod_20 [OF assms] by auto
next
  assume z: "j mod 20 = 0"
  have "unat ((of_nat j :: u32) mod 20) = unat (of_nat j :: u32) mod 20" by (simp add: unat_mod)
  also have "\<dots> = j mod 20" using assms by (simp add: unat_of_nat)
  finally have "unat ((of_nat j :: u32) mod 20) = 0" using z by simp
  then show "(of_nat j :: u32) mod 20 = 0" by (simp add: unat_eq_0)
qed

lemma polls_timeLeft_exact:
  assumes "j < 2 ^ 32" and "count r = 0"
  shows "timeLeft (polls pe totalWork 0 (Suc j) r)
     = (if double_less (Finite 0) (time_span_at pe j) \<and> j mod 20 = 0
        then divide_double pe
               (divide_double pe (to_double pe (totalWork - foldl (+) 0 (status_at pe j)))
                  (divide_double pe (to_double pe (foldl (+) 0 (status_at pe j))) (time_span_at pe j)))
               (Finite 60)
        else timeLeft (polls pe totalWork 0 j r))"
proof -
  have c: "count (polls pe totalWork 0 j r) mod 20 = 0 \<longleftrightarrow> j mod 20 = 0"
    using of_nat_mod_20_iff [OF assms(1)] assms(2) by (simp add: polls_count)
  have "polls pe totalWork 0 (Suc j) r = progress_poll pe totalWork j (polls pe totalWork 0 j r)"
    using polls_Suc [of pe totalWork 0 j r] by simp
  then show ?thesis
    using progress_poll_fields [of pe totalWork j "polls pe totalWork 0 j r"] c by simp
qed

lemma DisplayProgress_trace:
  assumes "isRunning_load pe w" and "\<forall>j<w. \<not> isRunning_load pe j"
    and "isCompleted_load pe n" and "\<forall>j<n. \<not> isCompleted_load pe j"
  shows "DisplayProgress pe totalWork
     = Some (replicate w (Sleep_ms 100)
             @ concat (map (\<lambda>i. [Progress_line (spinner ! unat ((of_nat i :: u32) mod 4))
                              (percent (polls pe totalWork 0 (Suc i) (reporter_init w)))
                              (foldl (+) 0 (status_at pe i)) totalWork
                              (seedsPerSec (polls pe totalWork 0 (Suc i) (reporter_init w)))
                              (timeLeft (polls pe totalWork 0 (Suc i) (reporter_init w))),
                            Sleep_ms 100]) [0..<n])
             @ [Clear_line])"
proof -
  have "DisplayProgress pe totalWork = Some (shown (polls pe totalWork 0 n (reporter_init w)) @ [Clear_line])"
    by (rule DisplayProgress_result [OF assms])
  then show ?thesis
    by (simp add: polls_shown) (simp add: reporter_init_def)
qed

lemma sample_reporter_flags:
  "isRunning_load sample_reporter 1 \<and> (\<forall>j<1. \<not> isRunning_load sample_reporter j)
   \<and> isCompleted_load sample_reporter 2 \<and> (\<forall>j<2. \<not> isCompleted_load sample_reporter j)"
  by (simp add: sample_reporter_def)

lemma sample_reporter_polls:
  "polls sample_reporter 1000 0 (Suc 0) (reporter_init 1)
     = \<lparr>percent = Finite (1 / 10), seedsPerSec = Finite 10, timeLeft = Finite (333 / 200), count = 1,
        shown = [Sleep_ms 100,
                 Progress_line (CHR ''|'') (Finite (1 / 10)) 1 1000 (Finite 10) (Finite (333 / 200)),
                 Sleep_ms 100]\<rparr>"
  "polls sample_reporter 1000 0 (Suc (Suc 0)) (reporter_init 1)
     = \<lparr>percent = Finite (1 / 5), seedsPerSec = Finite 10, timeLeft = Finite (333 / 200), count = 2,
        shown = [Sleep_ms 100,
                 Progress_line (CHR ''|'') (Finite (1 / 10)) 1 1000 (Finite 10) (Finite (333 / 200)),
                 Sleep_ms 100,
                 Progress_line (CHR ''/'') (Finite (1 / 5)) 2 1000 (Finite 10) (Finite (333 / 200)),
                 Sleep_ms 100]\<rparr>"
  by (simp_all add: progress_poll_def Let_def reporter_init_def sample_reporter_def spinner_def)

text \<open>
  Claim C9. The progress reporter polls the aggregated per-worker status counters roughly
  every 100 ms once the run has started, recomputes the ETA only on every 20th poll, and
  its loop terminates when, and only when, the shared completed flag is set. In the model
  of the thread:
  \<^item> \<^verbatim>\<open>DisplayProgress\<close> returns exactly when some load of the running flag and some load
    of the completed flag read it set;
  \<^item> when the running flag first reads set at load \<open>w\<close> and the completed flag at load
    \<open>n\<close>, the thread sleeps 100 ms \<open>w\<close> times, then polls \<open>n\<close> times, each poll showing
    its line (spinner, percentage, sum of the status counters read at that poll, total
    work, rate, time left) and followed by one sleep of 100 ms, and then clears the line;
  \<^item> the polling loop returns exactly when a load of the completed flag reads it set, and
    then at the first such load, after one poll for each earlier load;
  \<^item> a poll computes the percentage, the rate (when the time span is positive) and the
    time left as the code does, and counts itself;
  \<^item> counting the polls from 0 (below \<open>2 ^ 32\<close>, where the 32-bit counter wraps), a poll
    whose number is a multiple of 20 recomputes the time left from the readings of that
    poll when the time span is positive, and every other poll leaves it as it was.
\<close>

theorem progress_reporter:
  "((\<exists>evs. DisplayProgress pe totalWork = Some evs)
      \<longleftrightarrow> (\<exists>s. isRunning_load pe s) \<and> (\<exists>n. isCompleted_load pe n))
   \<and> (\<forall>w n. isRunning_load pe w \<and> (\<forall>j<w. \<not> isRunning_load pe j)
            \<and> isCompleted_load pe n \<and> (\<forall>j<n. \<not> isCompleted_load pe j)
          \<longrightarrow> DisplayProgress pe totalWork
               = Some (replicate w (Sleep_ms 100)
                       @ concat (map (\<lambda>i. [Progress_line (spinner ! unat ((of_nat i :: u32) mod 4))
                                        (percent (polls pe totalWork 0 (Suc i) (reporter_init w)))
                                        (foldl (+) 0 (status_at pe i)) totalWork
                                        (seedsPerSec (polls pe totalWork 0 (Suc i) (reporter_init w)))
                                        (timeLeft (polls pe totalWork 0 (Suc i) (reporter_init w))),
                                      Sleep_ms 100]) [0..<n])
                       @ [Clear_line]))
   \<and> (\<forall>k r. (\<exists>r'. progress_loop pe totalWork k r = Some r') \<longleftrightarrow> (\<exists>n. isCompleted_load pe (k + n)))
   \<and> (\<forall>k n r. isCompleted_load pe (k + n) \<and> (\<forall>j<n. \<not> isCompleted_load pe (k + j))
          \<longrightarrow> progress_loop pe totalWork k r = Some (polls pe totalWork k n r))
   \<and> (\<forall>k r. percent (progress_poll pe totalWork k r)
               = times_double pe
                   (divide_double pe (to_double pe (foldl (+) 0 (status_at pe k))) (to_double pe totalWork))
                   (Finite 100)
           \<and> seedsPerSec (progress_poll pe totalWork k r)
               = (if double_less (Finite 0) (time_span_at pe k)
                  then divide_double pe (to_double pe (foldl (+) 0 (status_at pe k))) (time_span_at pe k)
                  else seedsPerSec r)
           \<and> timeLeft (progress_poll pe totalWork k r)
               = (if double_less (Finite 0) (time_span_at pe k) \<and> count r mod 20 = 0
                  then divide_double pe
                         (divide_double pe (to_double pe (totalWork - foldl (+) 0 (status_at pe k)))
                            (divide_double pe (to_double pe (foldl (+) 0 (status_at pe k))) (time_span_at pe k)))
                         (Finite 60)
                  else timeLeft r)
           \<and> count (progress_poll pe totalWork k r) = count r + 1
           \<and> shown (progress_poll pe totalWork k r)
               = shown r
                 @ [Progress_line (spinner ! unat (count r mod 4))
                      (percent (progress_poll pe totalWork k r))
                      (foldl (+) 0 (status_at pe k)) totalWork
                      (seedsPerSec (progress_poll pe totalWork k r))
                      (timeLeft (progress_poll pe totalWork k r)),
                    Sleep_ms 100])
   \<and> (\<forall>j r. j < 2 ^ 32 \<and> count r = 0
          \<longrightarrow> timeLeft (polls pe totalWork 0 (Suc j) r)
               = (if double_less (Finite 0) (time_span_at pe j) \<and> j mod 20 = 0
                  then divide_double pe
                         (divide_double pe (to_double pe (totalWork - foldl (+) 0 (status_at pe j)))
                            (divide_double pe (to_double pe (foldl (+) 0 (status_at pe j))) (time_span_at pe j)))
                         (Finite 60)
                  else timeLeft (polls pe totalWork 0 j r)))"
proof -
  have ret: "(\<exists>evs. DisplayProgress pe totalWork = Some evs)
      \<longleftrightarrow> (\<exists>s. isRunning_load pe s) \<and> (\<exists>n. isCompleted_load pe n)"
    by (rule DisplayProgress_iff)
  have trace: "\<forall>w n. isRunning_load pe w \<and> (\<forall>j<w. \<not> isRunning_load pe j)
            \<and> isCompleted_load pe n \<and> (\<forall>j<n. \<not> isCompleted_load pe j)
          \<longrightarrow> DisplayProgress pe totalWork
               = Some (replicate w (Sleep_ms 100)
                       @ concat (map (\<lambda>i. [Progress_line (spinner ! unat ((of_nat i :: u32) mod 4))
                                        (percent (polls pe totalWork 0 (Suc i) (reporter_init w)))
                                        (foldl (+) 0 (status_at pe i)) totalWork
                                        (seedsPerSec (polls pe totalWork 0 (Suc i) (reporter_init w)))
                                        (timeLeft (polls pe totalWork 0 (Suc i) (reporter_init w))),
                                      Sleep_ms 100]) [0..<n])
                       @ [Clear_line])"
    using DisplayProgress_trace by blast
  have loop: "\<forall>k r. (\<exists>r'. progress_loop pe totalWork k r = Some r') \<longleftrightarrow> (\<exists>n. isCompleted_load pe (k + n))"
    using progress_loop_iff by blast
  have loop_at: "\<forall>k n r. isCompleted_load pe (k + n) \<and> (\<forall>j<n. \<not> isCompleted_load pe (k + j))
          \<longrightarrow> progress_loop pe totalWork k r = Some (polls pe totalWork k n r)"
    using progress_loop_terminates by blast
  have poll: "\<forall>k r. percent (progress_poll pe totalWork k r)
               = times_double pe
                   (divide_double pe (to_double pe (foldl (+) 0 (status_at pe k))) (to_double pe totalWork))
                   (Finite 100)
           \<and> seedsPerSec (progress_poll pe totalWork k r)
               = (if double_less (Finite 0) (time_span_at pe k)
                  then divide_double pe (to_double pe (foldl (+) 0 (status_at pe k))) (time_span_at pe k)
                  else seedsPerSec r)
           \<and> timeLeft (progress_poll pe totalWork k r)
               = (if double_less (Finite 0) (time_span_at pe k) \<and> count r mod 20 = 0
                  then divide_double pe
                         (divide_double pe (to_double pe (totalWork - foldl (+) 0 (status_at pe k)))
                            (divide_double pe (to_double pe (foldl (+) 0 (status_at pe k))) (time_span_at pe k)))
                         (Finite 60)
                  else timeLeft r)
           \<and> count (progress_poll pe totalWork k r) = count r + 1
           \<and> shown (progress_poll pe totalWork k r)
               = shown r
                 @ [Progress_line (spinner ! unat (count r mod 4))
                      (percent (progress_poll pe totalWork k r))
                      (foldl (+) 0 (status_at pe k)) totalWork
                      (seedsPerSec (progress_poll pe totalWork k r))
                      (timeLeft (progress_poll pe totalWork k r)),
                    Sleep_ms 100]"
    using progress_poll_fields progress_poll_shown_exact by (intro allI conjI) blast+
  have eta: "\<forall>j r. j < 2 ^ 32 \<and> count r = 0
          \<longrightarrow> timeLeft (polls pe totalWork 0 (Suc j) r)
               = (if double_less (Finite 0) (time_span_at pe j) \<and> j mod 20 = 0
                  then divide_double pe
                         (divide_double pe (to_double pe (totalWork - foldl (+) 0 (status_at pe j)))
                            (divide_double pe (to_double pe (foldl (+) 0 (status_at pe j))) (time_span_at pe j)))
                         (Finite 60)
                  else timeLeft (polls pe totalWork 0 j r))"
    using polls_timeLeft_exact by blast
  show ?thesis by (intro conjI ret trace loop loop_at poll eta)
qed

theorem progress_reporter_witness:
  "isRunning_load sample_reporter 1 \<and> \<not> isRunning_load sample_reporter 0
   \<and> isCompleted_load sample_reporter 2
   \<and> \<not> isCompleted_load sample_reporter 0 \<and> \<not> isCompleted_load sample_reporter 1
   \<and> DisplayProgress sample_reporter 1000
       = Some [Sleep_ms 100,
               Progress_line (CHR ''|'') (Finite (1 / 10)) 1 1000 (Finite 10) (Finite (333 / 200)),
               Sleep_ms 100,
               Progress_line (CHR ''/'') (Finite (1 / 5)) 2 1000 (Finite 10) (Finite (333 / 200)),
               Sleep_ms 100,
               Clear_line]
   \<and> progress_loop sample_reporter 1000 0 (reporter_init 1)
       = Some (polls sample_reporter 1000 0 2 (reporter_init 1))
   \<and> timeLeft (reporter_init 1) = Finite 0
   \<and> timeLeft (polls sample_reporter 1000 0 (Suc 0) (reporter_init 1)) = Finite (333 / 200)
   \<and> timeLeft (polls sample_reporter 1000 0 (Suc 1) (reporter_init 1))
       = timeLeft (polls sample_reporter 1000 0 1 (reporter_init 1))
   \<and> timeLeft (polls sample_reporter 1000 0 (Suc 20) (reporter_init 1)) = Finite (979 / 600)"
proof -
  note t = progress_reporter [of sample_reporter 1000]
  have flags: "isRunning_load sample_reporter 1" "\<not> isRunning_load sample_reporter 0"
    "isCompleted_load sample_reporter 2"
    "\<not> isCompleted_load sample_reporter 0" "\<not> isCompleted_load sample_reporter 1"
    by (simp_all add: sample_reporter_def)
  have s1: "DisplayProgress sample_reporter 1000
      = Some (replicate 1 (Sleep_ms 100)
              @ concat (map (\<lambda>i. [Progress_line (spinner ! unat ((of_nat i :: u32) mod 4))
                               (percent (polls sample_reporter 1000 0 (Suc i) (reporter_init 1)))
                               (foldl (+) 0 (status_at sample_reporter i)) 1000
                               (seedsPerSec (polls sample_reporter 1000 0 (Suc i) (reporter_init 1)))
                               (timeLeft (polls sample_reporter 1000 0 (Suc i) (reporter_init 1))),
                             Sleep_ms 100]) [0..<2])
              @ [Clear_line])"
    using conjunct1 [OF conjunct2 [OF t], rule_format, OF sample_reporter_flags] .
  have upt2: "[0..<2] = [0, Suc 0]" by (simp add: numeral_2_eq_2)
  have run: "DisplayProgress sample_reporter 1000
       = Some [Sleep_ms 100,
               Progress_line (CHR ''|'') (Finite (1 / 10)) 1 1000 (Finite 10) (Finite (333 / 200)),
               Sleep_ms 100,
               Progress_line (CHR ''/'') (Finite (1 / 5)) 2 1000 (Finite 10) (Finite (333 / 200)),
               Sleep_ms 100,
               Clear_line]"
    using s1 [unfolded upt2 list.map concat.simps sample_reporter_polls]
    by (simp add: sample_reporter_def spinner_def)
  have at2: "isCompleted_load sample_reporter (0 + 2) \<and> (\<forall>j<2. \<not> isCompleted_load sample_reporter (0 + j))"
    by (simp add: sample_reporter_def)
  have loop: "progress_loop sample_reporter 1000 0 (reporter_init 1)
       = Some (polls sample_reporter 1000 0 2 (reporter_init 1))"
    using conjunct1 [OF conjunct2 [OF conjunct2 [OF conjunct2 [OF t]]], rule_format, OF at2] .
  note eta = conjunct2 [OF conjunct2 [OF conjunct2 [OF conjunct2 [OF conjunct2 [OF t]]]], rule_format]
  have c0: "count (reporter_init 1) = 0" by (simp add: reporter_init_def)
  have t0: "timeLeft (reporter_init 1) = Finite 0" by (simp add: reporter_init_def)
  have e0: "timeLeft (polls sample_reporter 1000 0 (Suc 0) (reporter_init 1)) = Finite (333 / 200)"
    using eta [of 0 "reporter_init 1"] c0 by (simp add: sample_reporter_def)
  have e1: "timeLeft (polls sample_reporter 1000 0 (Suc 1) (reporter_init 1))
       = timeLeft (polls sample_reporter 1000 0 1 (reporter_init 1))"
    using eta [of 1 "reporter_init 1"] c0 by simp
  have e20: "timeLeft (polls sample_reporter 1000 0 (Suc 20) (reporter_init 1)) = Finite (979 / 600)"
    using eta [of 20 "reporter_init 1"] c0 by (simp add: sample_reporter_def)
  from flags run loop t0 e0 e1 e20 show ?thesis by (intro conjI)
qed

end
